theory Spec2Isabelle
  imports Complex_Main "HOL-Library.Word"
begin

unbundle bit_operations_syntax

section \<open>Numeric conventions\<close>

text \<open>
  numpy's fixed-width integers are words: \<open>np.int8\<close>, \<open>np.int16\<close> and \<open>np.int32\<close> are
  \<open>8 word\<close>, \<open>16 word\<close> and \<open>32 word\<close>, read as two's complement by \<open>sint\<close>. Python's
  own integers (thresholds, shift amounts, register values, masks) are unbounded and are
  \<open>int\<close> or \<open>nat\<close>.
\<close>

type_synonym i8 = "8 word"
type_synonym i16 = "16 word"
type_synonym i32 = "32 word"

text \<open>Python's \<open>round\<close> on a float (ties go to the even neighbour) and \<open>int\<close> on a
  float (truncation towards zero), on the real value of the float.\<close>

definition py_round :: "real \<Rightarrow> int" where
  "py_round x =
     (let f = \<lfloor>x\<rfloor>; d = x - of_int f
      in if d < 1 / 2 then f else if 1 / 2 < d then f + 1 else if even f then f else f + 1)"

definition py_int :: "real \<Rightarrow> int" where
  "py_int x = (if 0 \<le> x then \<lfloor>x\<rfloor> else \<lceil>x\<rceil>)"

text \<open>Python's slices \<open>xs[:k]\<close> and \<open>xs[k:]\<close>; a negative bound counts from the end.\<close>

definition py_slice_to :: "int \<Rightarrow> 'a list \<Rightarrow> 'a list" where
  "py_slice_to k xs = (if 0 \<le> k then take (nat k) xs else take (length xs - nat (- k)) xs)"

definition py_slice_from :: "int \<Rightarrow> 'a list \<Rightarrow> 'a list" where
  "py_slice_from k xs = (if 0 \<le> k then drop (nat k) xs else drop (length xs - nat (- k)) xs)"

datatype py_error = ValueError | IndexError | InferenceError

section \<open>The register map (src/fpga/regs.py)\<close>

definition CONTROL :: int where "CONTROL = 0x00"
definition STATUS :: int where "STATUS = 0x04"
definition WINDOW_LEN :: int where "WINDOW_LEN = 0x08"
definition N_IN :: int where "N_IN = 0x0C"
definition N_HIDDEN :: int where "N_HIDDEN = 0x10"
definition N_OUT :: int where "N_OUT = 0x14"
definition RESULT_CLASS :: int where "RESULT_CLASS = 0x18"
definition COUNT0 :: int where "COUNT0 = 0x1C"
definition COUNT1 :: int where "COUNT1 = 0x20"
definition COUNT2 :: int where "COUNT2 = 0x24"
definition CONF_Q15 :: int where "CONF_Q15 = 0x28"
definition LATENCY_CYCLES :: int where "LATENCY_CYCLES = 0x2C"

definition CTRL_START :: int where "CTRL_START = push_bit 0 1"
definition CTRL_RESET :: int where "CTRL_RESET = push_bit 1 1"
definition CTRL_INTEN :: int where "CTRL_INTEN = push_bit 2 1"

definition STS_DONE :: int where "STS_DONE = push_bit 0 1"
definition STS_BUSY :: int where "STS_BUSY = push_bit 1 1"
definition STS_ERR :: int where "STS_ERR = push_bit 2 1"

section \<open>The register emulator (src/fpga/fpga_emulator.py)\<close>

text \<open>
  \<open>EmulatorConfig\<close> and \<open>FPGAEmulator\<close> as records. The register bag \<open>_regs\<close> is a Python
  dict keyed by byte offset; the twelve named offsets are inserted by the constructor and
  never deleted, \<open>read_reg\<close> answers \<open>0\<close> for an offset that is absent, and a write to any
  other offset inserts it. A total function from offsets to values, \<open>0\<close> where the dict has
  no entry, has exactly these reads and writes. The two weight attributes are \<open>None\<close>
  until \<open>load_exports\<close> has run; their float entries are read only by the float engine.
\<close>

type_synonym float_matrix = "real list list"

record EmulatorConfig =
  n_in :: int
  n_hidden :: int
  n_out :: int
  window_len :: int
  leak_h_shift :: int
  leak_o_shift :: int
  th_h :: real
  th_o :: real

record FPGAEmulator =
  cfg :: EmulatorConfig
  regs :: "int \<Rightarrow> int"
  stream_buf :: "int list"
  W1 :: "float_matrix option"
  W2 :: "float_matrix option"

text \<open>
  The float engine \<open>infer_counts\<close> (golden_inference_float.py) computes in float32 and is
  a parameter of the emulator: given the configuration, the frame length, both weight
  matrices and the frame, it either raises (\<open>None\<close>) or returns the predicted class, the
  confidence and the per-class counts.
\<close>

type_synonym infer_fn =
  "EmulatorConfig \<Rightarrow> int \<Rightarrow> float_matrix \<Rightarrow> float_matrix \<Rightarrow> int list
     \<Rightarrow> (int \<times> real \<times> real list) option"

definition default_config :: EmulatorConfig where
  "default_config =
     \<lparr>n_in = 12, n_hidden = 32, n_out = 3, window_len = 10,
      leak_h_shift = 4, leak_o_shift = 4, th_h = 1, th_o = 1\<rparr>"

text \<open>The constructor; \<open>exports\<close> is what \<open>load_exports\<close> read, if a directory was given.\<close>

definition FPGAEmulator_init ::
  "(float_matrix \<times> float_matrix) option \<Rightarrow> EmulatorConfig \<Rightarrow> FPGAEmulator" where
  "FPGAEmulator_init exports c =
     \<lparr>cfg = c,
      regs = (\<lambda>k. 0)(WINDOW_LEN := window_len c, N_IN := n_in c,
                       N_HIDDEN := n_hidden c, N_OUT := n_out c),
      stream_buf = [],
      W1 = map_option fst exports,
      W2 = map_option snd exports\<rparr>"

definition set_reg :: "FPGAEmulator \<Rightarrow> int \<Rightarrow> int \<Rightarrow> FPGAEmulator" where
  "set_reg s offset v = s\<lparr>regs := (regs s)(offset := v)\<rparr>"

definition reset :: "FPGAEmulator \<Rightarrow> FPGAEmulator" where
  "reset s =
     (let s0 = s\<lparr>stream_buf := []\<rparr>;
          s1 = set_reg s0 STATUS 0;
          s2 = set_reg s1 RESULT_CLASS 0;
          s3 = set_reg s2 COUNT0 0;
          s4 = set_reg s3 COUNT1 0;
          s5 = set_reg s4 COUNT2 0;
          s6 = set_reg s5 CONF_Q15 0
      in set_reg s6 LATENCY_CYCLES 0)"

definition read_reg :: "FPGAEmulator \<Rightarrow> int \<Rightarrow> int" where
  "read_reg s offset = regs s offset"

definition stream_send_masks :: "FPGAEmulator \<Rightarrow> 32 word list \<Rightarrow> FPGAEmulator" where
  "stream_send_masks s masks = s\<lparr>stream_buf := stream_buf s @ map uint masks\<rparr>"

text \<open>
  \<open>_start_inference\<close>. An exception leaves the emulator as it was when it was raised, so
  the error result carries that state: \<open>np.stack\<close> raises \<open>ValueError\<close> on an empty
  sequence of arrays, the float engine may raise, and \<open>counts[i]\<close> raises \<open>IndexError\<close> on
  a count vector shorter than three.
\<close>

definition start_inference ::
  "infer_fn \<Rightarrow> FPGAEmulator \<Rightarrow> (py_error \<times> FPGAEmulator) + FPGAEmulator" where
  "start_inference infer s =
     (case W1 s of
        None \<Rightarrow> Inr (set_reg s STATUS STS_ERR)
      | Some w1 \<Rightarrow>
     (case W2 s of
        None \<Rightarrow> Inr (set_reg s STATUS STS_ERR)
      | Some w2 \<Rightarrow>
     (let Texp = regs s WINDOW_LEN in
      if int (length (stream_buf s)) < Texp then Inr (set_reg s STATUS STS_ERR)
      else
       (let frame = py_slice_to Texp (stream_buf s);
            sa = s\<lparr>stream_buf := py_slice_from Texp (stream_buf s)\<rparr>;
            sb = set_reg sa STATUS STS_BUSY
        in if frame = [] then Inl (ValueError, sb)
           else
            (case infer (cfg s) Texp w1 w2 frame of
               None \<Rightarrow> Inl (InferenceError, sb)
             | Some (pred, conf, counts) \<Rightarrow>
                (let sc = set_reg sb RESULT_CLASS pred in
                 if length counts < 1 then Inl (IndexError, sc)
                 else
                  (let sd = set_reg sc COUNT0 (py_int (counts ! 0)) in
                   if length counts < 2 then Inl (IndexError, sd)
                   else
                    (let se = set_reg sd COUNT1 (py_int (counts ! 1)) in
                     if length counts < 3 then Inl (IndexError, se)
                     else
                      (let sf = set_reg se COUNT2 (py_int (counts ! 2));
                           q15 = min (max (py_round (conf * 2 ^ 15)) 0) (2 ^ 15 - 1);
                           sg = set_reg sf CONF_Q15 q15;
                           sh = set_reg sg LATENCY_CYCLES
                                  (Texp * (n_hidden (cfg s) + n_out (cfg s)))
                       in Inr (set_reg sh STATUS STS_DONE))))))))))"

definition write_reg ::
  "infer_fn \<Rightarrow> FPGAEmulator \<Rightarrow> int \<Rightarrow> int \<Rightarrow> (py_error \<times> FPGAEmulator) + FPGAEmulator" where
  "write_reg infer s offset value0 =
     (let v = value0 AND 0xFFFFFFFF in
      if offset = CONTROL then
        (let s1 = (if v AND CTRL_RESET \<noteq> 0 then reset s else s) in
         case (if v AND CTRL_START \<noteq> 0 then start_inference infer s1 else Inr s1) of
           Inl e \<Rightarrow> Inl e
         | Inr s2 \<Rightarrow> Inr (set_reg s2 offset v))
      else if offset = WINDOW_LEN then Inr (set_reg s offset v)
      else Inr (set_reg s offset v))"

text \<open>A float engine that always raises, for states in which it is never reached.\<close>

definition no_infer :: infer_fn where
  "no_infer c t w1 w2 frame = None"

text \<open>
  An emulator with weights loaded whose window-length register has been written to zero
  through \<open>write_reg\<close>, with two words queued.
\<close>

definition zero_window_emulator :: FPGAEmulator where
  "zero_window_emulator =
     (case write_reg no_infer (FPGAEmulator_init (Some ([[0]], [[0]])) default_config)
             WINDOW_LEN 0 of
        Inr s \<Rightarrow> stream_send_masks s [5, 6] | Inl (e, s) \<Rightarrow> s)"

section \<open>Spike windows (scripts/step0_gen_fpga_artifacts.py)\<close>

text \<open>
  A spike window \<open>x_spk\<close> is a \<open>[T, C]\<close> array of spikes; an entry counts as a spike
  when it exceeds \<open>0.5\<close>, so a row is a list of booleans and every row has the same length
  \<open>C\<close>. The repository turns a window into the input of either engine:
  \<open>spikes_to_event_lists\<close> gives the per-timestep lists of active channels,
  \<open>spikes_to_mask\<close> the per-timestep bit mask.
\<close>

definition spikes_to_event_lists :: "bool list list \<Rightarrow> nat list list" where
  "spikes_to_event_lists x_spk = map (\<lambda>row. filter (\<lambda>ch. row ! ch) [0..<length row]) x_spk"

definition spikes_to_mask :: "bool list \<Rightarrow> int" where
  "spikes_to_mask x_spk_t =
     fold (\<lambda>i msk. if x_spk_t ! i then msk OR push_bit i 1 else msk)
       [0..<length x_spk_t] 0"

section \<open>Class selection\<close>

text \<open>
  \<open>np.argmax\<close> on a one-dimensional array: a scan that keeps the first index of the
  largest value seen so far and replaces it only by a strictly larger value; it raises
  \<open>ValueError\<close> on an empty array (\<open>None\<close>).
\<close>

fun argmax_scan :: "nat \<Rightarrow> int \<Rightarrow> nat \<Rightarrow> int list \<Rightarrow> nat" where
  "argmax_scan best bv i [] = best"
| "argmax_scan best bv i (x # xs) =
     (if bv < x then argmax_scan i x (Suc i) xs else argmax_scan best bv (Suc i) xs)"

fun np_argmax :: "int list \<Rightarrow> nat option" where
  "np_argmax [] = None"
| "np_argmax (x # xs) = Some (argmax_scan 0 x 1 xs)"

section \<open>The int32 engine (src/models/golden_inference.py)\<close>

text \<open>
  A weight matrix is a two-dimensional array of int8 of the declared shape (\<open>[12, Nh]\<close>
  and \<open>[Nh, No]\<close>), read at \<open>[row, column]\<close>: a function of the two indices. The
  engines are given matrices of the declared shape and event ids that are channel numbers,
  so every read is inside the shape. Leak shifts are shift counts (\<open>nat\<close>); thresholds
  and the window length are Python integers.
\<close>

type_synonym int8_matrix = "nat \<Rightarrow> nat \<Rightarrow> i8"

record SNNParams =
  Nh :: nat
  No :: nat
  leak_h_shift :: nat
  leak_o_shift :: nat
  th_h :: int
  th_o :: int
  window_len :: int

record SNNWeights =
  W1 :: int8_matrix
  W2 :: int8_matrix

text \<open>The engine's state between timesteps: \<open>(Vh, Vo, Cout)\<close>, all int32 arrays.\<close>

type_synonym state32 = "i32 list \<times> i32 list \<times> i32 list"

text \<open>\<open>Ih\<close>: the rows \<open>W1[src]\<close> of the timestep's events, widened to int32 and added up.\<close>

definition hidden_input32 :: "SNNWeights \<Rightarrow> nat \<Rightarrow> nat list \<Rightarrow> i32 list" where
  "hidden_input32 w nh ev =
     fold (\<lambda>src Ih. map2 (+) Ih (map (\<lambda>n. scast (SNNWeights.W1 w src n)) [0..<nh]))
       ev (replicate nh 0)"

text \<open>\<open>V - (V >> shift) + I\<close> on int32 arrays; \<open>>>\<close> on a signed array is arithmetic.\<close>

definition leak_integrate32 :: "i32 list \<Rightarrow> nat \<Rightarrow> i32 list \<Rightarrow> i32 list" where
  "leak_integrate32 V shift I = map2 (\<lambda>v i. v - signed_drop_bit shift v + i) V I"

text \<open>\<open>(V >= th).astype(np.int32)\<close> and \<open>np.where(spike == 1, 0, V)\<close>.\<close>

definition spikes32 :: "int \<Rightarrow> i32 list \<Rightarrow> i32 list" where
  "spikes32 th V = map (\<lambda>v. if th \<le> sint v then 1 else 0) V"

definition hard_reset32 :: "i32 list \<Rightarrow> i32 list \<Rightarrow> i32 list" where
  "hard_reset32 spike V = map2 (\<lambda>s v. if s = 1 then 0 else v) spike V"

text \<open>\<open>Io = spikeH @ W2\<close>: the vector-matrix product in int32.\<close>

definition output_input32 :: "SNNWeights \<Rightarrow> nat \<Rightarrow> nat \<Rightarrow> i32 list \<Rightarrow> i32 list" where
  "output_input32 w nh no spikeH =
     map (\<lambda>on. sum_list (map2 (\<lambda>s hn. s * scast (SNNWeights.W2 w hn on)) spikeH [0..<nh]))
       [0..<no]"

text \<open>The membrane potentials of one timestep before the reset (lines 42 and 48).\<close>

definition hidden_membrane32 :: "SNNWeights \<Rightarrow> SNNParams \<Rightarrow> nat list \<Rightarrow> i32 list \<Rightarrow> i32 list" where
  "hidden_membrane32 w p ev Vh =
     leak_integrate32 Vh (SNNParams.leak_h_shift p) (hidden_input32 w (Nh p) ev)"

definition output_membrane32 :: "SNNWeights \<Rightarrow> SNNParams \<Rightarrow> i32 list \<Rightarrow> i32 list \<Rightarrow> i32 list" where
  "output_membrane32 w p spikeH Vo =
     leak_integrate32 Vo (SNNParams.leak_o_shift p) (output_input32 w (Nh p) (No p) spikeH)"

definition events_step :: "SNNWeights \<Rightarrow> SNNParams \<Rightarrow> nat list \<Rightarrow> state32 \<Rightarrow> state32" where
  "events_step w p ev st =
     (case st of (Vh, Vo, Cout) \<Rightarrow>
        (let Vh1 = hidden_membrane32 w p ev Vh;
             spikeH = spikes32 (SNNParams.th_h p) Vh1;
             Vh2 = hard_reset32 spikeH Vh1;
             Vo1 = output_membrane32 w p spikeH Vo;
             spikeO = spikes32 (SNNParams.th_o p) Vo1;
             Cout1 = map2 (+) Cout spikeO;
             Vo2 = hard_reset32 spikeO Vo1
         in (Vh2, Vo2, Cout1)))"

definition init32 :: "SNNParams \<Rightarrow> state32" where
  "init32 p = (replicate (Nh p) 0, replicate (No p) 0, replicate (No p) 0)"

text \<open>The frames the loop runs over: the first \<open>T = min(len(events), window_len)\<close>.\<close>

definition window_of :: "int \<Rightarrow> 'a list \<Rightarrow> 'a list" where
  "window_of wl xs = take (nat (min (int (length xs)) wl)) xs"

text \<open>
  \<open>conf_q0_8 = (Cout[cls] << 8) // max(s, 1)\<close> on Python integers; \<open>s\<close> is the sum of the
  counts, accumulated by numpy in 64 bits.
\<close>

definition conf_q0_8 :: "i32 list \<Rightarrow> nat \<Rightarrow> int" where
  "conf_q0_8 Cout cls =
     (let s = sum_list (map sint Cout) in push_bit 8 (sint (Cout ! cls)) div max s 1)"

definition snn_infer_events ::
  "nat list list \<Rightarrow> SNNWeights \<Rightarrow> SNNParams \<Rightarrow> (nat \<times> int \<times> i32 list) option" where
  "snn_infer_events events w p =
     (case fold (events_step w p) (window_of (SNNParams.window_len p) events) (init32 p) of
        (Vh, Vo, Cout) \<Rightarrow>
          (case np_argmax (map sint Cout) of
             None \<Rightarrow> None
           | Some cls \<Rightarrow> Some (cls, conf_q0_8 Cout cls, Cout)))"

text \<open>
  Whether every membrane potential the int32 engine computes along a run, before the
  reset, is a value of the signed 16-bit range.
\<close>

definition fits_int16 :: "i32 \<Rightarrow> bool" where
  "fits_int16 v = (- (2 ^ 15) \<le> sint v \<and> sint v < 2 ^ 15)"

fun run_fits_int16 :: "SNNWeights \<Rightarrow> SNNParams \<Rightarrow> nat list list \<Rightarrow> state32 \<Rightarrow> bool" where
  "run_fits_int16 w p [] st = True"
| "run_fits_int16 w p (ev # evs) st =
     (let Vh1 = hidden_membrane32 w p ev (fst st);
          Vo1 = output_membrane32 w p (spikes32 (SNNParams.th_h p) Vh1) (fst (snd st))
      in list_all fits_int16 Vh1 \<and> list_all fits_int16 Vo1
         \<and> run_fits_int16 w p evs (events_step w p ev st))"

section \<open>The int16 engine (scripts/gen_snn_test_vectors.py)\<close>

record IntSNNParams =
  n_in :: nat
  n_hidden :: nat
  n_out :: nat
  window_len :: int
  leak_h_shift :: nat
  leak_o_shift :: nat
  th_h :: int
  th_o :: int

text \<open>
  \<open>asr16\<close>: widen to int32, shift, narrow to int16; the two branches of the source are
  the same expression.
\<close>

definition asr16 :: "i16 \<Rightarrow> nat \<Rightarrow> i16" where
  "asr16 v shift =
     (let v32 = (scast v :: i32)
      in if 0 \<le> sint v32 then ucast (signed_drop_bit shift v32)
         else ucast (signed_drop_bit shift v32))"

text \<open>The engine's state between timesteps: \<open>Vh\<close> and \<open>Vo\<close> in int16, \<open>Cout\<close> in int32.\<close>

type_synonym state16 = "i16 list \<times> i16 list \<times> i32 list"

text \<open>
  One weight row added into an input vector: each entry is widened to int32, the int8
  weight is added and the sum is narrowed to int16, which keeps its low 16 bits.
\<close>

definition add_row16 :: "(nat \<Rightarrow> i8) \<Rightarrow> nat \<Rightarrow> i16 list \<Rightarrow> i16 list" where
  "add_row16 row N I = map (\<lambda>n. ucast ((scast (I ! n) :: i32) + scast (row n))) [0..<N]"

definition hidden_input16 :: "int8_matrix \<Rightarrow> IntSNNParams \<Rightarrow> int \<Rightarrow> i16 list" where
  "hidden_input16 w1 p msk =
     fold (\<lambda>ch Ih. if drop_bit ch msk AND 1 \<noteq> 0 then add_row16 (w1 ch) (n_hidden p) Ih else Ih)
       [0..<n_in p] (replicate (n_hidden p) 0)"

definition output_input16 :: "int8_matrix \<Rightarrow> IntSNNParams \<Rightarrow> bool list \<Rightarrow> i16 list" where
  "output_input16 w2 p h_spikes =
     fold (\<lambda>hn Io. if h_spikes ! hn then add_row16 (w2 hn) (n_out p) Io else Io)
       [0..<n_hidden p] (replicate (n_out p) 0)"

text \<open>Steps 2 to 4 of a layer, each a loop over the \<open>N\<close> neurons of the layer.\<close>

definition leak16 :: "i16 list \<Rightarrow> nat \<Rightarrow> nat \<Rightarrow> i16 list" where
  "leak16 V shift N =
     map (\<lambda>n. ucast ((scast (V ! n) :: i32) - scast (asr16 (V ! n) shift))) [0..<N]"

definition accumulate16 :: "i16 list \<Rightarrow> i16 list \<Rightarrow> nat \<Rightarrow> i16 list" where
  "accumulate16 V_leaked I N =
     map (\<lambda>n. ucast ((scast (V_leaked ! n) :: i32) + scast (I ! n))) [0..<N]"

definition fire16 :: "int \<Rightarrow> i16 list \<Rightarrow> nat \<Rightarrow> bool list" where
  "fire16 th V_new N = map (\<lambda>n. th \<le> sint (V_new ! n)) [0..<N]"

definition reset16 :: "int \<Rightarrow> i16 list \<Rightarrow> nat \<Rightarrow> i16 list" where
  "reset16 th V_new N = map (\<lambda>n. if th \<le> sint (V_new ! n) then 0 else V_new ! n) [0..<N]"

definition count16 :: "bool list \<Rightarrow> i32 list \<Rightarrow> nat \<Rightarrow> i32 list" where
  "count16 o_spikes Cout N = map (\<lambda>n. if o_spikes ! n then Cout ! n + 1 else Cout ! n) [0..<N]"

text \<open>A whole layer: the new potentials and the spikes.\<close>

definition lif_layer16 :: "i16 list \<Rightarrow> i16 list \<Rightarrow> nat \<Rightarrow> int \<Rightarrow> nat \<Rightarrow> i16 list \<times> bool list" where
  "lif_layer16 V I shift th N =
     (let V_leaked = leak16 V shift N;
          V_new = accumulate16 V_leaked I N
      in (reset16 th V_new N, fire16 th V_new N))"

definition int_step :: "int8_matrix \<Rightarrow> int8_matrix \<Rightarrow> IntSNNParams \<Rightarrow> int \<Rightarrow> state16 \<Rightarrow> state16" where
  "int_step w1 w2 p spike_mask st =
     (case st of (Vh, Vo, Cout) \<Rightarrow>
        (let msk = spike_mask AND 0xFFF;
             Ih = hidden_input16 w1 p msk;
             (Vh', h_spikes) = lif_layer16 Vh Ih (leak_h_shift p) (th_h p) (n_hidden p);
             Io = output_input16 w2 p h_spikes;
             (Vo', o_spikes) = lif_layer16 Vo Io (leak_o_shift p) (th_o p) (n_out p);
             Cout' = count16 o_spikes Cout (n_out p)
         in (Vh', Vo', Cout')))"

definition init16 :: "IntSNNParams \<Rightarrow> state16" where
  "init16 p = (replicate (n_hidden p) 0, replicate (n_out p) 0, replicate (n_out p) 0)"

text \<open>
  \<open>snn_infer_int\<close>; the trace it also returns records the run and has no part in the
  class or the counts.
\<close>

definition snn_infer_int ::
  "int list \<Rightarrow> int8_matrix \<Rightarrow> int8_matrix \<Rightarrow> IntSNNParams \<Rightarrow> (nat \<times> i32 list) option" where
  "snn_infer_int spike_masks w1 w2 p =
     (case fold (int_step w1 w2 p) (window_of (window_len p) spike_masks) (init16 p) of
        (Vh, Vo, Cout) \<Rightarrow>
          (case np_argmax (map sint Cout) of
             None \<Rightarrow> None
           | Some cls \<Rightarrow> Some (cls, Cout)))"

section \<open>Comparing the two engines\<close>

text \<open>
  The two parameter records describe the same network when the fields they share agree.
  \<open>widened\<close> relates a state of the int16 engine to the state of the int32 engine that
  holds the same values; \<open>class_and_counts\<close> drops the confidence from the result of
  \<open>snn_infer_events\<close>, which \<open>snn_infer_int\<close> does not compute.
\<close>

definition same_params :: "SNNParams \<Rightarrow> IntSNNParams \<Rightarrow> bool" where
  "same_params p q =
     (n_hidden q = Nh p \<and> n_out q = No p \<and> window_len q = SNNParams.window_len p
      \<and> leak_h_shift q = SNNParams.leak_h_shift p \<and> leak_o_shift q = SNNParams.leak_o_shift p
      \<and> th_h q = SNNParams.th_h p \<and> th_o q = SNNParams.th_o p)"

definition widened :: "SNNParams \<Rightarrow> state16 \<Rightarrow> state32 \<Rightarrow> bool" where
  "widened p st16 st32 =
     (case st16 of (Vh, Vo, Cout) \<Rightarrow>
        st32 = (map scast Vh, map scast Vo, Cout)
        \<and> length Vh = Nh p \<and> length Vo = No p \<and> length Cout = No p)"

definition class_and_counts :: "(nat \<times> int \<times> i32 list) option \<Rightarrow> (nat \<times> i32 list) option" where
  "class_and_counts r = map_option (\<lambda>(cls, conf, Cout). (cls, Cout)) r"

section \<open>Sample networks\<close>

text \<open>
  A one-neuron network driven hard: every one of the 12 channels is active at each of 22
  timesteps, every input weight is \<open>-128\<close>, the leak shift of the hidden layer is 15, and
  the hidden neuron feeds class 1 with weight 127. Thresholds are 64 as in the reference
  configuration.
\<close>

definition cx_window :: "bool list list" where
  "cx_window = replicate 22 (replicate 12 True)"

definition cx_weights :: SNNWeights where
  "cx_weights = \<lparr>W1 = (\<lambda>ch n. - 128), W2 = (\<lambda>hn on. if on = 1 then 127 else 0)\<rparr>"

definition cx_params :: SNNParams where
  "cx_params = \<lparr>Nh = 1, No = 3, SNNParams.leak_h_shift = 15, SNNParams.leak_o_shift = 4,
      SNNParams.th_h = 64, SNNParams.th_o = 64, SNNParams.window_len = 22\<rparr>"

definition cx_int_params :: IntSNNParams where
  "cx_int_params = \<lparr>n_in = 12, n_hidden = 1, n_out = 3, window_len = 22,
      leak_h_shift = 15, leak_o_shift = 4, th_h = 64, th_o = 64\<rparr>"

text \<open>A two-neuron network on a window of two timesteps, inside the 16-bit range.\<close>

definition ex_window :: "bool list list" where
  "ex_window = [replicate 12 True, True # replicate 11 False]"

definition ex_weights :: SNNWeights where
  "ex_weights = \<lparr>W1 = (\<lambda>ch n. 10), W2 = (\<lambda>hn on. if on = 1 then 127 else 0)\<rparr>"

definition ex_params :: SNNParams where
  "ex_params = \<lparr>Nh = 2, No = 3, SNNParams.leak_h_shift = 4, SNNParams.leak_o_shift = 4,
      SNNParams.th_h = 64, SNNParams.th_o = 64, SNNParams.window_len = 10\<rparr>"

definition ex_int_params :: IntSNNParams where
  "ex_int_params = \<lparr>n_in = 12, n_hidden = 2, n_out = 3, window_len = 10,
      leak_h_shift = 4, leak_o_shift = 4, th_h = 64, th_o = 64\<rparr>"

text \<open>The shape of a state of the int32 engine: one potential per neuron, one count per class.\<close>

definition shaped32 :: "SNNParams \<Rightarrow> state32 \<Rightarrow> bool" where
  "shaped32 p st =
     (case st of (Vh, Vo, Cout) \<Rightarrow> length Vh = Nh p \<and> length Vo = No p \<and> length Cout = No p)"


section \<open>The quantizer (src/models/export_weights.py)\<close>

text \<open>
  \<open>quantize_int8\<close> on the real values of the float32 entries of the matrix, a list of rows.
  \<open>np.max\<close> raises on an array without entries (\<open>None\<close>). The guard compares the largest
  magnitude with \<open>1e-12\<close>; \<open>np.round\<close> rounds to the nearest integer, ties to the even
  one, as \<open>py_round\<close> does; \<open>np.clip\<close> bounds the result, and the cast to int8 of a value
  between \<open>-127\<close> and \<open>127\<close> keeps it. The rounding error of the two float divisions is
  not part of the model.
\<close>

definition np_clip :: "int \<Rightarrow> int \<Rightarrow> int \<Rightarrow> int" where
  "np_clip x lo hi = min (max x lo) hi"

definition quantize_int8 :: "real list list \<Rightarrow> (i8 list list \<times> real) option" where
  "quantize_int8 w =
     (case concat w of
        [] \<Rightarrow> None
      | x # xs \<Rightarrow>
          (let mx = fold max (map abs xs) \<bar>x\<bar>;
               scale = (if 1 / 10 ^ 12 < mx then mx / 127 else 1);
               q = map (map (\<lambda>v. word_of_int (np_clip (py_round (v / scale)) (- 127) 127))) w
           in Some (q, scale)))"

section \<open>Control word decoding\<close>

lemmas reg_offsets =
  CONTROL_def STATUS_def WINDOW_LEN_def N_IN_def N_HIDDEN_def N_OUT_def RESULT_CLASS_def
  COUNT0_def COUNT1_def COUNT2_def CONF_Q15_def LATENCY_CYCLES_def

lemmas reg_bits =
  CTRL_START_def CTRL_RESET_def CTRL_INTEN_def STS_DONE_def STS_BUSY_def STS_ERR_def

lemma ctrl_start_bit: "((v AND 0xFFFFFFFF) AND CTRL_START \<noteq> 0) = bit (v :: int) 0"
proof -
  have "(v AND 0xFFFFFFFF) AND CTRL_START = v AND 1"
    by (simp add: CTRL_START_def and.assoc)
  moreover have "(v AND 1 \<noteq> 0) = bit v 0"
    using bit_iff_and_push_bit_not_eq_0 [of v 0] by simp
  ultimately show ?thesis by simp
qed

lemma ctrl_reset_bit: "((v AND 0xFFFFFFFF) AND CTRL_RESET \<noteq> 0) = bit (v :: int) 1"
proof -
  have "(v AND 0xFFFFFFFF) AND CTRL_RESET = v AND 2"
    by (simp add: CTRL_RESET_def and.assoc)
  moreover have "(v AND 2 \<noteq> 0) = bit v 1"
    using bit_iff_and_push_bit_not_eq_0 [of v 1] by simp
  ultimately show ?thesis by simp
qed

section \<open>Register and buffer updates\<close>

lemma regs_set_reg: "regs (set_reg s k v) = (regs s)(k := v)"
  by (simp add: set_reg_def)

lemma stream_buf_set_reg: "stream_buf (set_reg s k v) = stream_buf s"
  by (simp add: set_reg_def)

lemma weights_set_reg: "FPGAEmulator.W1 (set_reg s k v) = FPGAEmulator.W1 s" "FPGAEmulator.W2 (set_reg s k v) = FPGAEmulator.W2 s" "cfg (set_reg s k v) = cfg s"
  by (simp_all add: set_reg_def)

lemma start_inference_err:
  assumes "FPGAEmulator.W1 s = None \<or> FPGAEmulator.W2 s = None \<or> int (length (stream_buf s)) < regs s WINDOW_LEN"
  shows "start_inference infer s = Inr (set_reg s STATUS STS_ERR)"
  using assms by (auto simp: start_inference_def Let_def split: option.splits)

section \<open>Protocol errors on START\<close>

text \<open>
  Claim C3. For every emulator state, a write to CONTROL with START set and RESET clear,
  while a weight matrix is missing or the stream buffer holds fewer words than the
  WINDOW_LEN register says, returns normally, sets STATUS to ERR and leaves RESULT_CLASS,
  COUNT0..COUNT2, CONF_Q15, LATENCY_CYCLES and the stream buffer as they were.
\<close>

theorem start_without_weights_or_frame_is_err:
  assumes start: "bit v 0" and noreset: "\<not> bit v 1"
    and short: "FPGAEmulator.W1 s = None \<or> FPGAEmulator.W2 s = None
                  \<or> int (length (stream_buf s)) < read_reg s WINDOW_LEN"
  shows "\<exists>s'. write_reg infer s CONTROL v = Inr s'
           \<and> read_reg s' STATUS = STS_ERR
           \<and> read_reg s' RESULT_CLASS = read_reg s RESULT_CLASS
           \<and> read_reg s' COUNT0 = read_reg s COUNT0
           \<and> read_reg s' COUNT1 = read_reg s COUNT1
           \<and> read_reg s' COUNT2 = read_reg s COUNT2
           \<and> read_reg s' CONF_Q15 = read_reg s CONF_Q15
           \<and> read_reg s' LATENCY_CYCLES = read_reg s LATENCY_CYCLES
           \<and> stream_buf s' = stream_buf s"
proof -
  have err: "start_inference infer s = Inr (set_reg s STATUS STS_ERR)"
    using short by (intro start_inference_err) (simp add: read_reg_def)
  have "write_reg infer s CONTROL v
          = Inr (set_reg (set_reg s STATUS STS_ERR) CONTROL (v AND 0xFFFFFFFF))"
    using start noreset by (simp add: write_reg_def Let_def ctrl_start_bit ctrl_reset_bit err)
  then show ?thesis
    by (simp add: read_reg_def regs_set_reg stream_buf_set_reg reg_offsets)
qed

theorem start_without_weights_or_frame_is_err_witness:
  "bit (1 :: int) 0 \<and> \<not> bit (1 :: int) 1
   \<and> FPGAEmulator.W1 (FPGAEmulator_init None default_config) = None
   \<and> (\<exists>s'. write_reg no_infer (FPGAEmulator_init None default_config) CONTROL 1 = Inr s'
           \<and> read_reg s' STATUS = 4
           \<and> read_reg s' RESULT_CLASS = 0
           \<and> stream_buf s' = [])"
  using start_without_weights_or_frame_is_err
          [of 1 "FPGAEmulator_init None default_config" no_infer]
  by (auto simp: FPGAEmulator_init_def read_reg_def reg_offsets reg_bits)

section \<open>Reset\<close>

lemma reset_fields:
  "stream_buf (reset s) = []" 
  "regs (reset s) = (regs s)(STATUS := 0, RESULT_CLASS := 0, COUNT0 := 0, COUNT1 := 0,
       COUNT2 := 0, CONF_Q15 := 0, LATENCY_CYCLES := 0)"
  "FPGAEmulator.W1 (reset s) = FPGAEmulator.W1 s" "FPGAEmulator.W2 (reset s) = FPGAEmulator.W2 s" "cfg (reset s) = cfg s"
  by (simp_all add: reset_def Let_def set_reg_def)

text \<open>
  Claim C5, as amended. A write to CONTROL with RESET set and START clear leaves the
  stream buffer empty and STATUS, RESULT_CLASS, COUNT0..COUNT2 and CONF_Q15 at zero,
  whatever the remaining bits of the written word are.
\<close>

theorem reset_without_start_is_idle:
  assumes rst: "bit v 1" and nostart: "\<not> bit v 0"
  shows "\<exists>s'. write_reg infer s CONTROL v = Inr s'
           \<and> stream_buf s' = []
           \<and> read_reg s' STATUS = 0
           \<and> read_reg s' RESULT_CLASS = 0
           \<and> read_reg s' COUNT0 = 0 \<and> read_reg s' COUNT1 = 0 \<and> read_reg s' COUNT2 = 0
           \<and> read_reg s' CONF_Q15 = 0"
proof -
  have "write_reg infer s CONTROL v = Inr (set_reg (reset s) CONTROL (v AND 0xFFFFFFFF))"
    using rst nostart by (simp add: write_reg_def Let_def ctrl_start_bit ctrl_reset_bit)
  then show ?thesis
    by (simp add: read_reg_def regs_set_reg stream_buf_set_reg reset_fields reg_offsets)
qed

theorem reset_without_start_is_idle_witness:
  "bit (2 :: int) 1 \<and> \<not> bit (2 :: int) 0
   \<and> (\<exists>s'. write_reg no_infer (stream_send_masks (FPGAEmulator_init None default_config) [7])
                  CONTROL 2 = Inr s'
           \<and> stream_buf s' = [] \<and> read_reg s' STATUS = 0 \<and> read_reg s' RESULT_CLASS = 0)"
  using reset_without_start_is_idle
          [of 2 no_infer "stream_send_masks (FPGAEmulator_init None default_config) [7]"]
  by auto

text \<open>
  \<open>write_reg\<close> handles RESET first and START second, so a word with both bits set
  resets and then starts an inference on the buffer it has just emptied: on a freshly
  constructed emulator without weights, writing 3 leaves STATUS at ERR, not at zero.
\<close>

theorem reset_with_start_is_err:
  "\<exists>s'. write_reg no_infer (FPGAEmulator_init None default_config) CONTROL 3 = Inr s'
         \<and> bit (3 :: int) 1 \<and> read_reg s' STATUS = STS_ERR \<and> read_reg s' STATUS \<noteq> 0"
  by (simp add: write_reg_def Let_def reg_bits start_inference_def reset_fields
        FPGAEmulator_init_def read_reg_def regs_set_reg reg_offsets)

section \<open>Frame consumption on START\<close>

text \<open>
  With weights loaded, a positive window length \<open>T\<close>, at least \<open>T\<close> words queued and a
  float engine that returns three counts for the first \<open>T\<close> words, START leaves exactly the
  words after the first \<open>T\<close> in the buffer, in order, and ends with STATUS at DONE.
\<close>

lemma start_consumes_one_frame:
  assumes start: "bit v 0" and noreset: "\<not> bit v 1"
    and w: "FPGAEmulator.W1 s = Some w1" "FPGAEmulator.W2 s = Some w2"
    and len: "0 < read_reg s WINDOW_LEN"
             "read_reg s WINDOW_LEN \<le> int (length (stream_buf s))"
    and run: "infer (cfg s) (read_reg s WINDOW_LEN) w1 w2
                (take (nat (read_reg s WINDOW_LEN)) (stream_buf s)) = Some (pred, conf, counts)"
    and cnt: "3 \<le> length counts"
  shows "\<exists>s'. write_reg infer s CONTROL v = Inr s'
           \<and> stream_buf s' = drop (nat (read_reg s WINDOW_LEN)) (stream_buf s)
           \<and> read_reg s' STATUS = STS_DONE
           \<and> read_reg s' RESULT_CLASS = pred"
proof -
  let ?T = "regs s WINDOW_LEN"
  have ne: "take (nat ?T) (stream_buf s) \<noteq> []"
    using len by (auto simp: read_reg_def)
  have "\<exists>s'. start_inference infer s = Inr s'
          \<and> stream_buf s' = drop (nat ?T) (stream_buf s)
          \<and> regs s' STATUS = STS_DONE \<and> regs s' RESULT_CLASS = pred"
    using w len run cnt ne
    by (auto simp: start_inference_def Let_def read_reg_def py_slice_to_def py_slice_from_def
          regs_set_reg stream_buf_set_reg weights_set_reg reg_offsets)
  then obtain s1 where s1: "start_inference infer s = Inr s1"
      "stream_buf s1 = drop (nat ?T) (stream_buf s)"
      "regs s1 STATUS = STS_DONE" "regs s1 RESULT_CLASS = pred"
    by blast
  have "write_reg infer s CONTROL v = Inr (set_reg s1 CONTROL (v AND 0xFFFFFFFF))"
    using start noreset s1(1)
    by (simp add: write_reg_def Let_def ctrl_start_bit ctrl_reset_bit)
  then show ?thesis
    using s1 by (simp add: read_reg_def regs_set_reg stream_buf_set_reg reg_offsets)
qed

lemma zero_window_emulator_state:
  "FPGAEmulator.W1 zero_window_emulator = Some [[0]] \<and> FPGAEmulator.W2 zero_window_emulator = Some [[0]]
   \<and> read_reg zero_window_emulator WINDOW_LEN = 0
   \<and> stream_buf zero_window_emulator = [5, 6]"
  by (simp add: zero_window_emulator_def write_reg_def Let_def reg_offsets
        FPGAEmulator_init_def stream_send_masks_def set_reg_def read_reg_def)

text \<open>
  Claim C4 at a window length of zero. The length check passes for every buffer, the frame
  is empty, STATUS is set to BUSY and \<open>np.stack\<close> raises on the empty frame: the write
  ends in an exception with STATUS still BUSY, for every float engine.
\<close>

theorem start_with_zero_window_raises:
  "\<exists>s'. write_reg infer zero_window_emulator CONTROL 1 = Inl (ValueError, s')
         \<and> read_reg s' STATUS = STS_BUSY \<and> read_reg s' STATUS \<noteq> STS_DONE
         \<and> stream_buf s' = [5, 6]"
proof -
  have "\<exists>s'. start_inference infer zero_window_emulator = Inl (ValueError, s')
          \<and> regs s' STATUS = STS_BUSY \<and> stream_buf s' = [5, 6]"
    using zero_window_emulator_state
    by (simp add: start_inference_def Let_def read_reg_def py_slice_to_def py_slice_from_def
          regs_set_reg stream_buf_set_reg)
  then show ?thesis
    by (auto simp: write_reg_def Let_def reg_bits read_reg_def)
qed

section \<open>Widening and narrowing between int16 and int32\<close>

lemma narrow_of_int: "(ucast (word_of_int k :: i32) :: i16) = word_of_int k"
  by (rule bit_word_eqI) (auto simp: bit_simps)

lemma narrow_add: "(ucast ((a :: i32) + b) :: i16) = ucast a + ucast b"
proof -
  have "(ucast (a + b) :: i16) = word_of_int (uint a + uint b)"
    by (metis narrow_of_int word_of_int_uint wi_hom_add)
  also have "\<dots> = ucast a + ucast b"
    by (simp add: wi_hom_add)
  finally show ?thesis .
qed

lemma narrow_diff: "(ucast ((a :: i32) - b) :: i16) = ucast a - ucast b"
proof -
  have "(ucast (a - b) :: i16) = word_of_int (uint a - uint b)"
    by (metis narrow_of_int word_of_int_uint wi_hom_sub)
  also have "\<dots> = ucast a - ucast b"
    by (simp add: wi_hom_sub)
  finally show ?thesis .
qed

lemma narrow_widen: "(ucast (scast (v :: i16) :: i32) :: i16) = v"
  by (rule bit_word_eqI) (auto simp: bit_simps)

lemma narrow_widen8: "(ucast (scast (v :: i8) :: i32) :: i16) = scast v"
  by (rule bit_word_eqI) (auto simp: bit_simps)

lemma sint_widen: "sint (scast (v :: i16) :: i32) = sint v"
  by (simp add: sint_up_scast is_up)

lemma narrow_asr: "(ucast (signed_drop_bit s (scast (v :: i16) :: i32)) :: i16) = signed_drop_bit s v"
  by (rule bit_word_eqI) (auto simp: bit_simps)

lemma asr16_eq: "asr16 v s = signed_drop_bit s v"
  by (simp add: asr16_def Let_def narrow_asr)

lemma sint_asr16: "sint (asr16 v s) = sint v div 2 ^ s"
  by (simp add: asr16_eq sint_signed_drop_bit_eq drop_bit_int_def)

lemma fits_int16_widen: "fits_int16 (scast (v :: i16))"
proof -
  have "- (2 ^ 15) \<le> sint v" "sint v < 2 ^ 15"
    using sint_ge [of v] sint_lt [of v] by simp_all
  then show ?thesis by (simp add: fits_int16_def sint_widen)
qed

lemma sint_narrow:
  assumes "fits_int16 x"
  shows "sint (ucast x :: i16) = sint x"
proof -
  have "sint (ucast x :: i16) = signed_take_bit 15 (sint x)"
    by (rule bit_eqI) (auto simp: bit_simps)
  also have "\<dots> = sint x"
    using assms by (simp add: fits_int16_def signed_take_bit_int_eq_self)
  finally show ?thesis .
qed

lemma widen_narrow:
  assumes "fits_int16 x"
  shows "(scast (ucast x :: i16) :: i32) = x"
proof -
  have "sint (scast (ucast x :: i16) :: i32) = sint x"
    using assms by (simp add: sint_widen sint_narrow)
  then show ?thesis by (rule signed_word_eqI)
qed

section \<open>Masks and event lists\<close>

lemma bit_fold_or:
  "bit (fold (\<lambda>i msk. if row ! i then msk OR push_bit i 1 else msk) is (m :: int)) k
     = (bit m k \<or> (k \<in> set is \<and> row ! k))"
proof (induction "is" arbitrary: m)
  case Nil
  then show ?case by simp
next
  case (Cons i "is")
  have one: "bit ((2 :: int) ^ i) k = (k = i)"
    by (auto simp: bit_exp_iff)
  show ?case
    by (auto simp: Cons.IH bit_or_iff one)
qed

lemma bit_spikes_to_mask: "bit (spikes_to_mask row) k = (k < length row \<and> row ! k)"
  by (simp add: spikes_to_mask_def bit_fold_or)

lemma mask_test_bit: "(drop_bit ch (m :: int) AND 1 \<noteq> 0) = bit m ch"
proof -
  have "drop_bit ch m AND 1 = of_bool (bit m ch)"
    by (simp add: and_one_eq bit_iff_odd_drop_bit mod_2_eq_odd)
  then show ?thesis by simp
qed

lemma bit_low12: "bit ((m :: int) AND 0xFFF) ch = (bit m ch \<and> ch < 12)"
proof -
  have "(0xFFF :: int) = mask 12"
    by (simp add: mask_eq_exp_minus_1)
  then have "bit (m AND 0xFFF) ch = bit (m AND mask 12) ch"
    by simp
  also have "\<dots> = (bit m ch \<and> ch < 12)"
    by (simp only: bit_and_iff bit_mask_iff possible_bit_int simp_thms)
  finally show ?thesis .
qed

lemma fold_if_filter: "fold (\<lambda>x s. if P x then f x s else s) xs s0 = fold f (filter P xs) s0"
  by (induction xs arbitrary: s0) simp_all

lemma filter_upt_prefix:
  assumes "k \<le> n"
  shows "filter (\<lambda>ch. ch < k \<and> Q ch) [0..<n] = filter Q [0..<k]"
proof -
  have split: "[0..<n] = [0..<k] @ [k..<n]"
    by (metis assms le_add_diff_inverse upt_add_eq_append zero_le)
  have a: "filter (\<lambda>ch. ch < k \<and> Q ch) [0..<k] = filter Q [0..<k]"
    by (rule filter_cong) simp_all
  have b: "filter (\<lambda>ch. ch < k \<and> Q ch) [k..<n] = []"
    by (simp add: filter_empty_conv)
  show ?thesis
    by (simp only: split filter_append a b append_Nil2)
qed

section \<open>Vectors of the two engines\<close>

lemma add_row16_narrow:
  assumes "length I = N"
  shows "add_row16 row N (map ucast I)
           = map ucast (map2 (+) I (map (\<lambda>n. (scast (row n) :: i32)) [0..<N]))"
proof (rule nth_equalityI)
  show "length (add_row16 row N (map ucast I))
          = length (map ucast (map2 (+) I (map (\<lambda>n. (scast (row n) :: i32)) [0..<N])) :: i16 list)"
    using assms by (simp add: add_row16_def)
next
  fix n assume "n < length (add_row16 row N (map ucast I))"
  then have n: "n < N" by (simp add: add_row16_def)
  then show "add_row16 row N (map ucast I) ! n
          = (map ucast (map2 (+) I (map (\<lambda>n. (scast (row n) :: i32)) [0..<N])) :: i16 list) ! n"
    using assms by (simp add: add_row16_def narrow_add narrow_widen narrow_widen8)
qed

lemma length_add_rows32:
  "length I = N \<Longrightarrow>
   length (fold (\<lambda>src Ih. map2 (+) Ih (map (\<lambda>n. (scast (w src n) :: i32)) [0..<N])) es I) = N"
  by (induction es arbitrary: I) auto

lemma fold_add_row16_narrow:
  assumes "length I = N"
  shows "fold (\<lambda>src. add_row16 (w src) N) es (map ucast I)
           = map ucast (fold (\<lambda>src Ih. map2 (+) Ih (map (\<lambda>n. (scast (w src n) :: i32)) [0..<N])) es I)"
  using assms
proof (induction es arbitrary: I)
  case Nil
  then show ?case by simp
next
  case (Cons e es)
  let ?I = "map2 (+) I (map (\<lambda>n. (scast (w e n) :: i32)) [0..<N])"
  have len: "length ?I = N"
    using Cons.prems by simp
  have "fold (\<lambda>src. add_row16 (w src) N) (e # es) (map ucast I)
          = fold (\<lambda>src. add_row16 (w src) N) es (add_row16 (w e) N (map ucast I))"
    by simp
  also have "\<dots> = fold (\<lambda>src. add_row16 (w src) N) es (map ucast ?I)"
    by (simp only: add_row16_narrow [OF Cons.prems])
  also have "\<dots> = map ucast
      (fold (\<lambda>src Ih. map2 (+) Ih (map (\<lambda>n. (scast (w src n) :: i32)) [0..<N])) es ?I)"
    by (rule Cons.IH [OF len])
  finally show ?case by simp
qed

lemma length_hidden_input32: "length (hidden_input32 w nh ev) = nh"
  by (simp add: hidden_input32_def length_add_rows32)

lemma hidden_input16_narrow:
  assumes "length row \<le> 12" "length row \<le> n_in p"
  shows "hidden_input16 (SNNWeights.W1 w) p (spikes_to_mask row AND 0xFFF)
           = map ucast (hidden_input32 w (n_hidden p)
               (filter (\<lambda>ch. row ! ch) [0..<length row]))"
proof -
  have P: "(\<lambda>ch. drop_bit ch (spikes_to_mask row AND 0xFFF) AND 1 \<noteq> 0)
             = (\<lambda>ch. ch < length row \<and> row ! ch)"
  proof
    fix ch
    have "(drop_bit ch (spikes_to_mask row AND 0xFFF) AND 1 \<noteq> 0)
            = bit (spikes_to_mask row AND 0xFFF) ch"
      by (rule mask_test_bit)
    also have "\<dots> = (bit (spikes_to_mask row) ch \<and> ch < 12)"
      by (rule bit_low12)
    also have "\<dots> = (ch < length row \<and> row ! ch)"
      using assms(1) by (auto simp: bit_spikes_to_mask)
    finally show "(drop_bit ch (spikes_to_mask row AND 0xFFF) AND 1 \<noteq> 0)
            = (ch < length row \<and> row ! ch)" .
  qed
  have "hidden_input16 (SNNWeights.W1 w) p (spikes_to_mask row AND 0xFFF)
          = fold (\<lambda>ch. add_row16 (SNNWeights.W1 w ch) (n_hidden p))
              (filter (\<lambda>ch. ch < length row \<and> row ! ch) [0..<n_in p])
              (replicate (n_hidden p) 0)"
    unfolding hidden_input16_def fold_if_filter P ..
  also have "\<dots> = fold (\<lambda>ch. add_row16 (SNNWeights.W1 w ch) (n_hidden p))
              (filter (\<lambda>ch. row ! ch) [0..<length row])
              (map ucast (replicate (n_hidden p) (0 :: i32)))"
    using assms(2) by (simp add: filter_upt_prefix)
  also have "\<dots> = map ucast (hidden_input32 w (n_hidden p)
               (filter (\<lambda>ch. row ! ch) [0..<length row]))"
    unfolding hidden_input32_def by (subst fold_add_row16_narrow) simp_all
  finally show ?thesis .
qed

lemma leak_accumulate_narrow:
  assumes "length V = N" "length I = N"
  shows "accumulate16 (leak16 V s N) (map ucast I) N
           = map ucast (leak_integrate32 (map scast V) s I)"
proof (rule nth_equalityI)
  show "length (accumulate16 (leak16 V s N) (map ucast I) N)
          = length (map ucast (leak_integrate32 (map scast V) s I) :: i16 list)"
    using assms by (simp add: accumulate16_def leak_integrate32_def)
next
  fix n assume "n < length (accumulate16 (leak16 V s N) (map ucast I) N)"
  then have n: "n < N" by (simp add: accumulate16_def)
  then show "accumulate16 (leak16 V s N) (map ucast I) N ! n
          = (map ucast (leak_integrate32 (map scast V) s I) :: i16 list) ! n"
    using assms
    by (simp add: accumulate16_def leak16_def leak_integrate32_def asr16_eq
          narrow_add narrow_diff narrow_widen narrow_asr)
qed

lemma length_leak_integrate32: "length (leak_integrate32 V s I) = min (length V) (length I)"
  by (simp add: leak_integrate32_def)

lemma fire16_narrow:
  assumes "length Vn = N" "list_all fits_int16 Vn"
  shows "fire16 th (map ucast Vn) N = map (\<lambda>v. th \<le> sint v) Vn"
proof (rule nth_equalityI)
  show "length (fire16 th (map ucast Vn) N) = length (map (\<lambda>v. th \<le> sint v) Vn)"
    using assms by (simp add: fire16_def)
next
  fix n assume "n < length (fire16 th (map ucast Vn) N)"
  then have n: "n < N" by (simp add: fire16_def)
  then have "fits_int16 (Vn ! n)"
    using assms by (simp add: list_all_length)
  then show "fire16 th (map ucast Vn) N ! n = map (\<lambda>v. th \<le> sint v) Vn ! n"
    using n assms by (simp add: fire16_def sint_narrow)
qed

lemma reset16_widen:
  assumes "length Vn = N" "list_all fits_int16 Vn"
  shows "map scast (reset16 th (map ucast Vn) N) = hard_reset32 (spikes32 th Vn) Vn"
proof (rule nth_equalityI)
  show "length (map scast (reset16 th (map ucast Vn) N) :: i32 list)
          = length (hard_reset32 (spikes32 th Vn) Vn)"
    using assms by (simp add: reset16_def hard_reset32_def spikes32_def)
next
  fix n assume "n < length (map scast (reset16 th (map ucast Vn) N) :: i32 list)"
  then have n: "n < N" by (simp add: reset16_def)
  then have "fits_int16 (Vn ! n)"
    using assms by (simp add: list_all_length)
  then show "(map scast (reset16 th (map ucast Vn) N) :: i32 list) ! n
          = hard_reset32 (spikes32 th Vn) Vn ! n"
    using n assms
    by (simp add: reset16_def hard_reset32_def spikes32_def sint_narrow widen_narrow)
qed

lemma map2_upt:
  assumes "length xs = n"
  shows "map2 g xs [0..<n] = map (\<lambda>i. g (xs ! i) i) [0..<n]"
  using assms by (intro nth_equalityI) simp_all

lemma fold_output_rows_narrow:
  assumes "length A = N"
  shows "fold (\<lambda>hn Io. if hs ! hn then add_row16 (w hn) N Io else Io) js (map ucast A)
           = map ucast (map (\<lambda>on. A ! on
               + sum_list (map (\<lambda>hn. (if hs ! hn then 1 else 0) * (scast (w hn on) :: i32)) js))
               [0..<N])"
  using assms
proof (induction js arbitrary: A)
  case Nil
  then show ?case by (intro nth_equalityI) simp_all
next
  case (Cons j js)
  show ?case
  proof (cases "hs ! j")
    case True
    let ?A = "map2 (+) A (map (\<lambda>n. (scast (w j n) :: i32)) [0..<N])"
    have len: "length ?A = N" using Cons.prems by simp
    have "fold (\<lambda>hn Io. if hs ! hn then add_row16 (w hn) N Io else Io) (j # js) (map ucast A)
            = fold (\<lambda>hn Io. if hs ! hn then add_row16 (w hn) N Io else Io) js (map ucast ?A)"
      using True Cons.prems by (simp add: add_row16_narrow)
    also have "\<dots> = map ucast (map (\<lambda>on. ?A ! on
               + sum_list (map (\<lambda>hn. (if hs ! hn then 1 else 0) * (scast (w hn on) :: i32)) js))
               [0..<N])"
      by (rule Cons.IH [OF len])
    also have "\<dots> = map ucast (map (\<lambda>on. A ! on
               + sum_list (map (\<lambda>hn. (if hs ! hn then 1 else 0) * (scast (w hn on) :: i32)) (j # js)))
               [0..<N])"
      using True Cons.prems by (simp add: add.assoc)
    finally show ?thesis .
  next
    case False
    then show ?thesis
      using Cons.IH [OF Cons.prems] by simp
  qed
qed

lemma spike_products:
  assumes "length hs = n"
  shows "map (\<lambda>hn. map f hs ! hn * g hn) [0..<n] = map (\<lambda>hn. f (hs ! hn) * g hn) [0..<n]"
  using assms by (intro map_cong) simp_all

lemma output_input16_narrow:
  assumes "length hs = n_hidden p"
  shows "output_input16 (SNNWeights.W2 w) p hs
           = map ucast (output_input32 w (n_hidden p) (n_out p)
               (map (\<lambda>b. if b then 1 else 0) hs))"
proof -
  have "output_input16 (SNNWeights.W2 w) p hs
          = fold (\<lambda>hn Io. if hs ! hn then add_row16 (SNNWeights.W2 w hn) (n_out p) Io else Io)
              [0..<n_hidden p] (map ucast (replicate (n_out p) (0 :: i32)))"
    by (simp add: output_input16_def)
  also have "\<dots> = map ucast (map (\<lambda>on. replicate (n_out p) (0 :: i32) ! on
               + sum_list (map (\<lambda>hn. (if hs ! hn then 1 else 0) * (scast (SNNWeights.W2 w hn on) :: i32))
                   [0..<n_hidden p]))
               [0..<n_out p])"
    by (rule fold_output_rows_narrow) simp
  also have "\<dots> = map ucast (output_input32 w (n_hidden p) (n_out p)
               (map (\<lambda>b. if b then 1 else 0) hs))"
    using assms by (simp add: output_input32_def map2_upt spike_products)
  finally show ?thesis .
qed

lemma length_output_input32: "length (output_input32 w nh no sp) = no"
  by (simp add: output_input32_def)

lemma spikes32_as_bools: "spikes32 th V = map (\<lambda>b. if b then 1 else 0) (map (\<lambda>v. th \<le> sint v) V)"
  by (simp add: spikes32_def)

lemma count16_eq:
  assumes "length Cout = N" "length V = N"
  shows "count16 (map (\<lambda>v. th \<le> sint v) V) Cout N = map2 (+) Cout (spikes32 th V)"
  using assms by (intro nth_equalityI) (simp_all add: count16_def spikes32_def)

section \<open>The int16 engine follows the int32 engine\<close>

lemma lif_layer16_sim:
  assumes len: "length V = N" "length I = N"
    and fits: "list_all fits_int16 (leak_integrate32 (map scast V) s I)"
  shows "snd (lif_layer16 V (map ucast I) s th N)
           = map (\<lambda>v. th \<le> sint v) (leak_integrate32 (map scast V) s I)"
    and "map scast (fst (lif_layer16 V (map ucast I) s th N))
           = hard_reset32 (spikes32 th (leak_integrate32 (map scast V) s I))
               (leak_integrate32 (map scast V) s I)"
    and "length (fst (lif_layer16 V (map ucast I) s th N)) = N"
proof -
  let ?Vn = "leak_integrate32 (map scast V) s I"
  have lenVn: "length ?Vn = N"
    using len by (simp add: length_leak_integrate32)
  have acc: "accumulate16 (leak16 V s N) (map ucast I) N = map ucast ?Vn"
    by (rule leak_accumulate_narrow [OF len])
  show "snd (lif_layer16 V (map ucast I) s th N) = map (\<lambda>v. th \<le> sint v) ?Vn"
    by (simp add: lif_layer16_def Let_def acc fire16_narrow [OF lenVn fits])
  show "map scast (fst (lif_layer16 V (map ucast I) s th N))
           = hard_reset32 (spikes32 th ?Vn) ?Vn"
    by (simp add: lif_layer16_def Let_def acc reset16_widen [OF lenVn fits])
  show "length (fst (lif_layer16 V (map ucast I) s th N)) = N"
    by (simp add: lif_layer16_def Let_def reset16_def)
qed

lemma step_sim:
  assumes sim: "widened p st16 st32"
    and par: "same_params p q"
    and row: "length row \<le> 12" "length row \<le> n_in q"
    and fits: "run_fits_int16 w p [filter (\<lambda>ch. row ! ch) [0..<length row]] st32"
  shows "widened p (int_step (SNNWeights.W1 w) (SNNWeights.W2 w) q (spikes_to_mask row) st16)
           (events_step w p (filter (\<lambda>ch. row ! ch) [0..<length row]) st32)"
proof -
  obtain Vh Vo Cout where st16: "st16 = (Vh, Vo, Cout)"
    by (cases st16) auto
  let ?ev = "filter (\<lambda>ch. row ! ch) [0..<length row]"
  have st32: "st32 = (map scast Vh, map scast Vo, Cout)"
    and len: "length Vh = Nh p" "length Vo = No p" "length Cout = No p"
    using sim by (simp_all add: widened_def st16)
  have q: "n_hidden q = Nh p" "n_out q = No p" "leak_h_shift q = SNNParams.leak_h_shift p"
      "leak_o_shift q = SNNParams.leak_o_shift p" "th_h q = SNNParams.th_h p"
      "th_o q = SNNParams.th_o p"
    using par by (simp_all add: same_params_def)
  let ?Ih = "hidden_input32 w (Nh p) ?ev"
  let ?Vh1 = "leak_integrate32 (map scast Vh) (SNNParams.leak_h_shift p) ?Ih"
  let ?spikeH = "spikes32 (SNNParams.th_h p) ?Vh1"
  let ?Io = "output_input32 w (Nh p) (No p) ?spikeH"
  let ?Vo1 = "leak_integrate32 (map scast Vo) (SNNParams.leak_o_shift p) ?Io"
  have fitsH: "list_all fits_int16 ?Vh1" and fitsO: "list_all fits_int16 ?Vo1"
    using fits
    by (simp_all add: st32 Let_def hidden_membrane32_def output_membrane32_def)
  have Ih: "hidden_input16 (SNNWeights.W1 w) q (spikes_to_mask row AND 0xFFF) = map ucast ?Ih"
    using hidden_input16_narrow [OF row, of w] by (simp add: q)
  have lenIh: "length ?Ih = Nh p"
    by (rule length_hidden_input32)
  note H = lif_layer16_sim [OF len(1) lenIh fitsH, of "SNNParams.th_h p"]
  let ?hs = "map (\<lambda>v. SNNParams.th_h p \<le> sint v) ?Vh1"
  have lenhs: "length ?hs = n_hidden q"
    using len lenIh by (simp add: q length_leak_integrate32)
  have Io: "output_input16 (SNNWeights.W2 w) q ?hs = map ucast ?Io"
    using output_input16_narrow [OF lenhs, of w] by (simp add: q spikes32_as_bools)
  have lenIo: "length ?Io = No p"
    by (rule length_output_input32)
  note O = lif_layer16_sim [OF len(2) lenIo fitsO, of "SNNParams.th_o p"]
  have lenVo1: "length ?Vo1 = No p"
    using len lenIo by (simp add: length_leak_integrate32)
  have cnt: "count16 (map (\<lambda>v. SNNParams.th_o p \<le> sint v) ?Vo1) Cout (No p)
               = map2 (+) Cout (spikes32 (SNNParams.th_o p) ?Vo1)"
    by (rule count16_eq [OF len(3) lenVo1])
  have lenSp: "length (spikes32 (SNNParams.th_o p) ?Vo1) = No p"
    using lenVo1 by (simp add: spikes32_def)
  show ?thesis
    by (simp add: widened_def st16 st32 int_step_def events_step_def Let_def split_beta q
          hidden_membrane32_def output_membrane32_def Ih H Io O cnt len lenSp)
qed

lemma run_sim:
  assumes "widened p st16 st32"
    and "same_params p q"
    and "\<forall>row \<in> set rows. length row \<le> 12 \<and> length row \<le> n_in q"
    and "run_fits_int16 w p (spikes_to_event_lists rows) st32"
  shows "widened p (fold (int_step (SNNWeights.W1 w) (SNNWeights.W2 w) q) (map spikes_to_mask rows) st16)
           (fold (events_step w p) (spikes_to_event_lists rows) st32)"
  using assms
proof (induction rows arbitrary: st16 st32)
  case Nil
  then show ?case by (simp add: spikes_to_event_lists_def)
next
  case (Cons row rows)
  let ?ev = "filter (\<lambda>ch. row ! ch) [0..<length row]"
  have fits1: "run_fits_int16 w p [?ev] st32"
    and fits2: "run_fits_int16 w p (spikes_to_event_lists rows) (events_step w p ?ev st32)"
    using Cons.prems(4) by (simp_all add: spikes_to_event_lists_def Let_def)
  have row: "length row \<le> 12" "length row \<le> n_in q"
    using Cons.prems(3) by simp_all
  have step: "widened p (int_step (SNNWeights.W1 w) (SNNWeights.W2 w) q (spikes_to_mask row) st16)
                (events_step w p ?ev st32)"
    by (rule step_sim [OF Cons.prems(1) Cons.prems(2) row fits1])
  have rest: "\<forall>row \<in> set rows. length row \<le> 12 \<and> length row \<le> n_in q"
    using Cons.prems(3) by simp
  show ?case
    using Cons.IH [OF step Cons.prems(2) rest fits2]
    by (simp add: spikes_to_event_lists_def)
qed

lemma window_of_map: "window_of wl (map f xs) = map f (window_of wl xs)"
  by (simp add: window_of_def take_map)

lemma set_window_of: "set (window_of wl xs) \<subseteq> set xs"
  by (simp add: window_of_def set_take_subset)

lemma widened_init:
  assumes "same_params p q"
  shows "widened p (init16 q) (init32 p)"
  using assms by (simp add: widened_def init16_def init32_def same_params_def)

text \<open>
  Claim C1, as amended. For a spike window of at most 12 channels and no more channels
  than the \<open>n_in\<close> inputs that \<open>snn_infer_int\<close> scans, and parameter records that
  describe the same network, \<open>snn_infer_int\<close> on the masks of the window and
  \<open>snn_infer_events\<close> on its event lists return the same class and the same counts
  whenever every membrane potential that the int32 engine computes along the run is a
  value of the signed 16-bit range.
\<close>

theorem engines_agree_within_int16:
  assumes par: "same_params p q"
    and rows: "\<forall>row \<in> set x_spk. length row \<le> 12 \<and> length row \<le> n_in q"
    and fits: "run_fits_int16 w p
                 (window_of (SNNParams.window_len p) (spikes_to_event_lists x_spk)) (init32 p)"
  shows "snn_infer_int (map spikes_to_mask x_spk) (SNNWeights.W1 w) (SNNWeights.W2 w) q
           = class_and_counts (snn_infer_events (spikes_to_event_lists x_spk) w p)"
proof -
  let ?rows = "window_of (SNNParams.window_len p) x_spk"
  have ev: "window_of (SNNParams.window_len p) (spikes_to_event_lists x_spk)
              = spikes_to_event_lists ?rows"
    by (simp add: spikes_to_event_lists_def window_of_map)
  have mk: "window_of (window_len q) (map spikes_to_mask x_spk) = map spikes_to_mask ?rows"
    using par by (simp add: window_of_map same_params_def)
  have rows': "\<forall>row \<in> set ?rows. length row \<le> 12 \<and> length row \<le> n_in q"
    using rows set_window_of [of "SNNParams.window_len p" x_spk] by blast
  have sim: "widened p (fold (int_step (SNNWeights.W1 w) (SNNWeights.W2 w) q) (map spikes_to_mask ?rows) (init16 q))
               (fold (events_step w p) (spikes_to_event_lists ?rows) (init32 p))"
    using fits by (intro run_sim [OF widened_init [OF par] par rows']) (simp add: ev)
  obtain Vh Vo Cout where f16: "fold (int_step (SNNWeights.W1 w) (SNNWeights.W2 w) q)
      (map spikes_to_mask ?rows) (init16 q) = (Vh, Vo, Cout)"
    by (metis prod_cases3)
  then have f32: "fold (events_step w p) (spikes_to_event_lists ?rows) (init32 p)
      = (map scast Vh, map scast Vo, Cout)"
    using sim by (simp add: widened_def)
  show ?thesis
    by (simp add: snn_infer_int_def snn_infer_events_def class_and_counts_def ev mk f16 f32
          split: option.splits)
qed

section \<open>A run that leaves the 16-bit range\<close>

lemma upt12: "[0..<12] = [0,1,2,3,4,5,6,7,8,9,10,11]"
  by code_simp

lemma replicate3: "replicate 3 x = [x, x, x]"
  by (simp add: numeral_3_eq_3)

lemma cx_events_row: "filter (\<lambda>ch. replicate 12 True ! ch) [0..<length (replicate 12 True)] = [0..<12]"
  by (simp add: filter_id_conv)

lemma cx_mask_row: "spikes_to_mask (replicate 12 True) = 4095"
  by (simp add: spikes_to_mask_def upt12)

lemma cx_hidden_input32: "hidden_input32 cx_weights (Suc 0) [0..<12] = [- 1536]"
  by (simp add: hidden_input32_def cx_weights_def upt12)

lemma upt3: "[0..<3] = [0, 1, 2]"
  by code_simp

lemma cx_int_fields:
  "n_in cx_int_params = 12" "n_hidden cx_int_params = 1" "n_out cx_int_params = 3"
  "window_len cx_int_params = 22" "leak_h_shift cx_int_params = 15"
  "leak_o_shift cx_int_params = 4" "th_h cx_int_params = 64" "th_o cx_int_params = 64"
  by (simp_all add: cx_int_params_def)

lemma cx_fields:
  "Nh cx_params = 1" "No cx_params = 3" "SNNParams.window_len cx_params = 22"
  "SNNParams.leak_h_shift cx_params = 15" "SNNParams.leak_o_shift cx_params = 4"
  "SNNParams.th_h cx_params = 64" "SNNParams.th_o cx_params = 64"
  by (simp_all add: cx_params_def)

lemma cx_hidden_input16: "hidden_input16 (SNNWeights.W1 cx_weights) cx_int_params 4095 = [- 1536]"
  by (simp add: hidden_input16_def cx_weights_def cx_int_fields upt12 add_row16_def)

lemma cx_output_input16_quiet:
  "output_input16 (SNNWeights.W2 cx_weights) cx_int_params [False] = [0, 0, 0]"
  by (simp add: output_input16_def cx_int_fields replicate3)

lemma cx_output_input16_spike:
  "output_input16 (SNNWeights.W2 cx_weights) cx_int_params [True] = [0, 127, 0]"
  by (simp add: output_input16_def cx_int_fields add_row16_def upt3 cx_weights_def replicate3)

lemma cx_hidden_layer16:
  "lif_layer16 [v] [- 1536] 15 64 (Suc 0)
     = (if 64 \<le> sint (v - signed_drop_bit 15 v - 1536) then ([0], [True])
        else ([v - signed_drop_bit 15 v - 1536], [False]))"
  by (simp add: lif_layer16_def Let_def leak16_def accumulate16_def fire16_def reset16_def
        asr16_eq narrow_add narrow_diff narrow_widen)

lemma cx_output_layer16_quiet: "lif_layer16 [0, 0, 0] [0, 0, 0] 4 64 3 = ([0, 0, 0], [False, False, False])"
  by (simp add: lif_layer16_def Let_def leak16_def accumulate16_def fire16_def reset16_def
        asr16_eq upt3)

lemma cx_output_layer16_spike: "lif_layer16 [0, 0, 0] [0, 127, 0] 4 64 3 = ([0, 0, 0], [False, True, False])"
  by (simp add: lif_layer16_def Let_def leak16_def accumulate16_def fire16_def reset16_def
        asr16_eq upt3)

lemma cx_int_step:
  "int_step (SNNWeights.W1 cx_weights) (SNNWeights.W2 cx_weights) cx_int_params 4095
           ([v], [0, 0, 0], [0, 0, 0])
     = (if 64 \<le> sint (v - signed_drop_bit 15 v - 1536) then ([0], [0, 0, 0], [0, 1, 0])
        else ([v - signed_drop_bit 15 v - 1536], [0, 0, 0], [0, 0, 0]))"
  by (simp add: int_step_def Let_def cx_int_fields cx_hidden_input16 cx_hidden_layer16
        cx_output_input16_quiet cx_output_input16_spike cx_output_layer16_quiet
        cx_output_layer16_spike count16_def upt3)

lemma cx_events_step:
  assumes "\<not> 64 \<le> sint (v - signed_drop_bit 15 v - 1536)"
  shows "events_step cx_weights cx_params [0..<12] ([v], [0, 0, 0], [0, 0, 0])
           = ([v - signed_drop_bit 15 v - 1536], [0, 0, 0], [0, 0, 0])"
  using assms
  by (simp add: events_step_def hidden_membrane32_def output_membrane32_def Let_def
        cx_fields cx_hidden_input32 leak_integrate32_def spikes32_def hard_reset32_def
        output_input32_def upt3)

lemma replicate22:
  "replicate 22 x = [x, x, x, x, x, x, x, x, x, x, x, x, x, x, x, x, x, x, x, x, x, x]"
  by (simp add: eval_nat_numeral)

lemma cx_window_events: "spikes_to_event_lists cx_window = replicate 22 [0..<12]"
  by (simp add: spikes_to_event_lists_def cx_window_def cx_events_row)

lemma cx_window_masks: "map spikes_to_mask cx_window = replicate 22 4095"
  by (simp add: cx_window_def cx_mask_row)

lemma cx_events_run:
  "fold (events_step cx_weights cx_params) (replicate 22 [0..<12]) ([0], [0, 0, 0], [0, 0, 0])
     = ([- 33771], [0, 0, 0], [0, 0, 0])"
  by (simp add: replicate22 cx_events_step)

lemma cx_int_run:
  "fold (int_step (SNNWeights.W1 cx_weights) (SNNWeights.W2 cx_weights) cx_int_params)
     (replicate 22 4095) ([0], [0, 0, 0], [0, 0, 0])
     = ([0], [0, 0, 0], [0, 1, 0])"
  by (simp add: replicate22 cx_int_step)

lemma cx_events_result:
  "snn_infer_events (spikes_to_event_lists cx_window) cx_weights cx_params = Some (0, 0, [0, 0, 0])"
  by (simp add: snn_infer_events_def cx_window_events window_of_def cx_fields init32_def
        replicate3 cx_events_run conf_q0_8_def del: fold_replicate)

lemma cx_int_result:
  "snn_infer_int (map spikes_to_mask cx_window) (SNNWeights.W1 cx_weights)
     (SNNWeights.W2 cx_weights) cx_int_params = Some (1, [0, 1, 0])"
  by (simp add: snn_infer_int_def cx_window_masks window_of_def cx_int_fields init16_def
        replicate3 cx_int_run del: fold_replicate)

text \<open>
  On the hard-driven network the hidden potential of the int32 engine falls to
  \<open>-33771\<close> at the last timestep and never reaches the threshold, so no neuron fires and
  the class is 0 with counts \<open>[0, 0, 0]\<close>. The int16 engine keeps the low 16 bits,
  \<open>31765\<close>, which is above the threshold: the hidden neuron fires, class 1 is counted,
  and the result is class 1 with counts \<open>[0, 1, 0]\<close>.
\<close>

theorem engines_differ_beyond_int16:
  "same_params cx_params cx_int_params
   \<and> snn_infer_events (spikes_to_event_lists cx_window) cx_weights cx_params
       = Some (0, 0, [0, 0, 0])
   \<and> snn_infer_int (map spikes_to_mask cx_window) (SNNWeights.W1 cx_weights)
       (SNNWeights.W2 cx_weights) cx_int_params = Some (1, [0, 1, 0])
   \<and> snn_infer_int (map spikes_to_mask cx_window) (SNNWeights.W1 cx_weights)
       (SNNWeights.W2 cx_weights) cx_int_params
       \<noteq> class_and_counts (snn_infer_events (spikes_to_event_lists cx_window) cx_weights cx_params)"
  by (simp add: cx_events_result cx_int_result class_and_counts_def same_params_def
        cx_fields cx_int_fields)

theorem engines_agree_within_int16_witness:
  "same_params ex_params ex_int_params
   \<and> list_all (\<lambda>row. length row = 12) ex_window
   \<and> run_fits_int16 ex_weights ex_params
        (window_of (SNNParams.window_len ex_params) (spikes_to_event_lists ex_window))
        (init32 ex_params)
   \<and> snn_infer_events (spikes_to_event_lists ex_window) ex_weights ex_params
        = Some (1, 256, [0, 1, 0])
   \<and> snn_infer_int (map spikes_to_mask ex_window) (SNNWeights.W1 ex_weights)
        (SNNWeights.W2 ex_weights) ex_int_params = Some (1, [0, 1, 0])"
proof -
  have par: "same_params ex_params ex_int_params"
    by (simp add: same_params_def ex_params_def ex_int_params_def)
  have rows: "\<forall>row \<in> set ex_window. length row \<le> 12 \<and> length row \<le> n_in ex_int_params"
    by (simp add: ex_window_def ex_int_params_def)
  have fits: "run_fits_int16 ex_weights ex_params
        (window_of (SNNParams.window_len ex_params) (spikes_to_event_lists ex_window))
        (init32 ex_params)"
    by code_simp
  have ev: "snn_infer_events (spikes_to_event_lists ex_window) ex_weights ex_params
        = Some (1, 256, [0, 1, 0])"
    by code_simp
  have "snn_infer_int (map spikes_to_mask ex_window) (SNNWeights.W1 ex_weights)
        (SNNWeights.W2 ex_weights) ex_int_params = Some (1, [0, 1, 0])"
    using engines_agree_within_int16 [OF par rows fits] by (simp add: ev class_and_counts_def)
  then show ?thesis
    using par fits ev by (simp add: ex_window_def)
qed

text \<open>
  \<open>snn_infer_int\<close> reads only the channels below \<open>n_in\<close>, \<open>snn_infer_events\<close> every
  event: on the sample window, inside the 16-bit range, an int16 engine told to scan one
  input channel sees a weighted input of 10 where the int32 engine sees 120, and the two
  return different classes.
\<close>

lemma ex_fits:
  "run_fits_int16 ex_weights ex_params
     (window_of (SNNParams.window_len ex_params) (spikes_to_event_lists ex_window))
     (init32 ex_params)"
  by code_simp

lemma ex_int_result_one_input:
  "snn_infer_int (map spikes_to_mask ex_window) (SNNWeights.W1 ex_weights)
     (SNNWeights.W2 ex_weights) (ex_int_params\<lparr>n_in := 1\<rparr>) = Some (0, [0, 0, 0])"
  by code_simp

lemma engines_differ_on_unscanned_channels:
  "same_params ex_params (ex_int_params\<lparr>n_in := 1\<rparr>)
   \<and> list_all (\<lambda>row. length row = 12) ex_window
   \<and> run_fits_int16 ex_weights ex_params
        (window_of (SNNParams.window_len ex_params) (spikes_to_event_lists ex_window))
        (init32 ex_params)
   \<and> snn_infer_events (spikes_to_event_lists ex_window) ex_weights ex_params
        = Some (1, 256, [0, 1, 0])
   \<and> snn_infer_int (map spikes_to_mask ex_window) (SNNWeights.W1 ex_weights)
        (SNNWeights.W2 ex_weights) (ex_int_params\<lparr>n_in := 1\<rparr>) = Some (0, [0, 0, 0])"
proof -
  have par: "same_params ex_params (ex_int_params\<lparr>n_in := 1\<rparr>)"
    by (simp add: same_params_def ex_params_def ex_int_params_def)
  have ev: "snn_infer_events (spikes_to_event_lists ex_window) ex_weights ex_params
        = Some (1, 256, [0, 1, 0])"
    by code_simp
  show ?thesis
    using par ex_fits ev ex_int_result_one_input by (simp add: ex_window_def)
qed

section \<open>The layer update, neuron by neuron\<close>

lemma div_pow_le_self:
  fixes x :: int
  assumes "0 \<le> x"
  shows "0 \<le> x div 2 ^ s" "x div 2 ^ s \<le> x"
proof -
  show "0 \<le> x div 2 ^ s"
    using assms by (simp add: pos_imp_zdiv_nonneg_iff)
  have "x div 2 ^ s \<le> x div 1"
    using assms by (intro zdiv_mono2) simp_all
  then show "x div 2 ^ s \<le> x" by simp
qed

lemma div_pow_neg:
  fixes x :: int
  assumes "x < 0"
  shows "x div 2 ^ s < 0" "x \<le> x div 2 ^ s"
proof -
  show "x div 2 ^ s < 0"
    using assms by (simp add: pos_imp_zdiv_neg_iff)
  have "x div 1 \<le> x div 2 ^ s"
    using assms by (intro zdiv_mono2_neg) simp_all
  then show "x \<le> x div 2 ^ s" by simp
qed

lemma leak_in_range:
  fixes x :: int
  assumes "- (2 ^ 15) \<le> x" "x < 2 ^ 15"
  shows "- (2 ^ 15) \<le> x - x div 2 ^ s \<and> x - x div 2 ^ s < 2 ^ 15"
proof (cases "0 \<le> x")
  case True
  then show ?thesis
    using div_pow_le_self [OF True, of s] assms by linarith
next
  case False
  then have "x < 0" by simp
  then show ?thesis
    using div_pow_neg [of x s] assms by linarith
qed

lemma sint_leak16:
  "sint ((v :: i16) - asr16 v s) = sint v - sint v div 2 ^ s"
proof -
  have r: "- (2 ^ 15) \<le> sint v" "sint v < 2 ^ 15"
    using sint_ge [of v] sint_lt [of v] by simp_all
  have "sint (v - asr16 v s) = signed_take_bit 15 (sint v - sint (asr16 v s))"
    by (simp add: sint_word_ariths)
  also have "\<dots> = signed_take_bit 15 (sint v - sint v div 2 ^ s)"
    by (simp only: sint_asr16)
  also have "\<dots> = sint v - sint v div 2 ^ s"
    using leak_in_range [OF r, of s] by (intro signed_take_bit_int_eq_self) simp_all
  finally show ?thesis .
qed

lemma asr16_sign: "(sint (asr16 v s) < 0) = (sint v < 0)"
  by (simp add: sint_asr16 pos_imp_zdiv_neg_iff)

lemma leak16_nth: "n < N \<Longrightarrow> leak16 V s N ! n = V ! n - asr16 (V ! n) s"
  by (simp add: leak16_def narrow_diff narrow_widen)

lemma accumulate16_nth: "n < N \<Longrightarrow> accumulate16 Vl I N ! n = Vl ! n + I ! n"
  by (simp add: accumulate16_def narrow_add narrow_widen)

lemma lif_layer16_potentials:
  "fst (lif_layer16 V I shift th N)
     = map (\<lambda>n. if th \<le> sint (V ! n - asr16 (V ! n) shift + I ! n) then 0
                 else V ! n - asr16 (V ! n) shift + I ! n) [0..<N]"
  by (simp add: lif_layer16_def Let_def reset16_def accumulate16_nth leak16_nth)

lemma lif_layer16_spikes:
  "snd (lif_layer16 V I shift th N)
     = map (\<lambda>n. th \<le> sint (V ! n - asr16 (V ! n) shift + I ! n)) [0..<N]"
  by (simp add: lif_layer16_def Let_def fire16_def accumulate16_nth leak16_nth)

text \<open>
  Claim C2. One timestep of \<open>snn_infer_int\<close> takes the state \<open>(Vh, Vo, Cout)\<close> to
  \<open>(Vh', Vo', Cout')\<close>. \<open>asr16\<close> is the arithmetic right shift: the floor of
  \<open>v / 2 ^ shift\<close>, with the sign of \<open>v\<close>, and subtracting it never leaves the 16-bit
  range. For every hidden neuron \<open>n\<close> the new potential is the leaked potential
  \<open>Vh ! n - asr16 (Vh ! n) shift\<close> plus the weighted input \<open>Ih ! n\<close>, as a 16-bit sum; the
  neuron spikes exactly when that is at least the threshold, its potential then becomes 0
  and otherwise the new potential. The hidden spikes select the weight rows of the output
  input \<open>Io\<close>, and every output neuron is updated in the same way from \<open>Vo\<close> and \<open>Io\<close>,
  a spike adding one to its count. \<open>snn_infer_int\<close> is this timestep folded over the window
  from the zero state, followed by the choice of the class.
\<close>

theorem int_step_neuron_update:
  assumes step: "int_step w1 w2 p spike_mask (Vh, Vo, Cout) = (Vh', Vo', Cout')"
  shows "(let Ih = hidden_input16 w1 p (spike_mask AND 0xFFF);
              vh_new = (\<lambda>n. Vh ! n - asr16 (Vh ! n) (leak_h_shift p) + Ih ! n);
              h_spikes = map (\<lambda>n. th_h p \<le> sint (vh_new n)) [0..<n_hidden p];
              Io = output_input16 w2 p h_spikes;
              vo_new = (\<lambda>n. Vo ! n - asr16 (Vo ! n) (leak_o_shift p) + Io ! n)
          in (\<forall>v shift. sint (asr16 v shift) = sint v div 2 ^ shift
                \<and> (sint (asr16 v shift) < 0) = (sint v < 0)
                \<and> sint (v - asr16 v shift) = sint v - sint v div 2 ^ shift)
             \<and> length Vh' = n_hidden p \<and> length Vo' = n_out p \<and> length Cout' = n_out p
             \<and> (\<forall>n < n_hidden p.
                   Vh' ! n = (if th_h p \<le> sint (vh_new n) then 0 else vh_new n))
             \<and> (\<forall>n < n_out p.
                   Vo' ! n = (if th_o p \<le> sint (vo_new n) then 0 else vo_new n)
                   \<and> Cout' ! n = (if th_o p \<le> sint (vo_new n) then Cout ! n + 1 else Cout ! n)))
         \<and> snn_infer_int spike_masks w1 w2 p
             = (case fold (int_step w1 w2 p) (window_of (window_len p) spike_masks) (init16 p) of
                  (Vh, Vo, Cout) \<Rightarrow> map_option (\<lambda>cls. (cls, Cout)) (np_argmax (map sint Cout)))"
proof -
  let ?Ih = "hidden_input16 w1 p (spike_mask AND 0xFFF)"
  let ?vh = "\<lambda>n. Vh ! n - asr16 (Vh ! n) (leak_h_shift p) + ?Ih ! n"
  let ?hs = "map (\<lambda>n. th_h p \<le> sint (?vh n)) [0..<n_hidden p]"
  let ?Io = "output_input16 w2 p ?hs"
  let ?vo = "\<lambda>n. Vo ! n - asr16 (Vo ! n) (leak_o_shift p) + ?Io ! n"
  let ?os = "map (\<lambda>n. th_o p \<le> sint (?vo n)) [0..<n_out p]"
  have hs: "snd (lif_layer16 Vh ?Ih (leak_h_shift p) (th_h p) (n_hidden p)) = ?hs"
    by (rule lif_layer16_spikes)
  have os: "snd (lif_layer16 Vo ?Io (leak_o_shift p) (th_o p) (n_out p)) = ?os"
    by (rule lif_layer16_spikes)
  have "int_step w1 w2 p spike_mask (Vh, Vo, Cout)
          = (fst (lif_layer16 Vh ?Ih (leak_h_shift p) (th_h p) (n_hidden p)),
             fst (lif_layer16 Vo ?Io (leak_o_shift p) (th_o p) (n_out p)),
             count16 ?os Cout (n_out p))"
    by (simp add: int_step_def Let_def split_beta hs os)
  with step have Vh': "Vh' = fst (lif_layer16 Vh ?Ih (leak_h_shift p) (th_h p) (n_hidden p))"
    and Vo': "Vo' = fst (lif_layer16 Vo ?Io (leak_o_shift p) (th_o p) (n_out p))"
    and Cout': "Cout' = count16 ?os Cout (n_out p)"
    by simp_all
  have shift: "\<forall>v shift. sint (asr16 v shift) = sint v div 2 ^ shift
                \<and> (sint (asr16 v shift) < 0) = (sint v < 0)
                \<and> sint (v - asr16 v shift) = sint v - sint v div 2 ^ shift"
    by (simp add: sint_asr16 asr16_sign sint_leak16 pos_imp_zdiv_neg_iff)
  have len: "length Vh' = n_hidden p" "length Vo' = n_out p" "length Cout' = n_out p"
    by (simp_all add: Vh' Vo' Cout' lif_layer16_potentials count16_def)
  have hid: "\<forall>n < n_hidden p. Vh' ! n = (if th_h p \<le> sint (?vh n) then 0 else ?vh n)"
    by (simp add: Vh' lif_layer16_potentials)
  have out: "\<forall>n < n_out p.
               Vo' ! n = (if th_o p \<le> sint (?vo n) then 0 else ?vo n)
               \<and> Cout' ! n = (if th_o p \<le> sint (?vo n) then Cout ! n + 1 else Cout ! n)"
    by (simp add: Vo' Cout' lif_layer16_potentials count16_def)
  have run: "snn_infer_int spike_masks w1 w2 p
             = (case fold (int_step w1 w2 p) (window_of (window_len p) spike_masks) (init16 p) of
                  (Vh, Vo, Cout) \<Rightarrow> map_option (\<lambda>cls. (cls, Cout)) (np_argmax (map sint Cout)))"
    by (simp add: snn_infer_int_def split: prod.splits option.splits)
  show ?thesis
    unfolding Let_def using shift len hid out run by blast
qed

lemma ex_int_step:
  "int_step (SNNWeights.W1 ex_weights) (SNNWeights.W2 ex_weights) ex_int_params 4095
     ([- 100, 100], [0, 0, 0], [0, 0, 0]) = ([27, 0], [0, 0, 0], [0, 1, 0])"
  by code_simp

lemma ex_hidden_input16:
  "hidden_input16 (SNNWeights.W1 ex_weights) ex_int_params (4095 AND 0xFFF) = [120, 120]"
  by code_simp

theorem int_step_neuron_update_witness:
  "int_step (SNNWeights.W1 ex_weights) (SNNWeights.W2 ex_weights) ex_int_params 4095
     ([- 100, 100], [0, 0, 0], [0, 0, 0]) = ([27, 0], [0, 0, 0], [0, 1, 0])
   \<and> hidden_input16 (SNNWeights.W1 ex_weights) ex_int_params (4095 AND 0xFFF) = [120, 120]
   \<and> sint (asr16 (- 100) 4) = - 7
   \<and> ([27, 0] :: i16 list) ! 0
       = (if th_h ex_int_params \<le> sint (- 100 - asr16 (- 100) 4 + 120 :: i16) then 0
          else - 100 - asr16 (- 100) 4 + 120)
   \<and> ([27, 0] :: i16 list) ! 1
       = (if th_h ex_int_params \<le> sint (100 - asr16 100 4 + 120 :: i16) then 0
          else 100 - asr16 100 4 + 120)"
proof -
  note t = int_step_neuron_update [OF ex_int_step, of "[]", unfolded Let_def ex_hidden_input16]
  have n: "n_hidden ex_int_params = 2"
    by (simp add: ex_int_params_def)
  from t have shift: "sint (asr16 (- 100) 4) = sint (- 100 :: i16) div 2 ^ 4"
    by blast
  from t have hid: "\<forall>n < n_hidden ex_int_params.
      ([27, 0] :: i16 list) ! n
        = (if th_h ex_int_params
                \<le> sint ([- 100, 100] ! n - asr16 ([- 100, 100] ! n) (leak_h_shift ex_int_params)
                          + [120, 120] ! n)
           then 0
           else [- 100, 100] ! n - asr16 ([- 100, 100] ! n) (leak_h_shift ex_int_params)
                + [120, 120] ! n)"
    by blast
  have s: "leak_h_shift ex_int_params = 4"
    by (simp add: ex_int_params_def)
  have h0: "([27, 0] :: i16 list) ! 0
       = (if th_h ex_int_params \<le> sint (- 100 - asr16 (- 100) 4 + 120 :: i16) then 0
          else - 100 - asr16 (- 100) 4 + 120)"
    using hid [rule_format, of 0] by (simp add: n s asr16_eq ex_int_params_def)
  have h1: "([27, 0] :: i16 list) ! 1
       = (if th_h ex_int_params \<le> sint (100 - asr16 100 4 + 120 :: i16) then 0
          else 100 - asr16 100 4 + 120)"
    using hid [rule_format, of 1] by (simp add: n s asr16_eq ex_int_params_def)
  have "sint (asr16 (- 100) 4) = - 7"
    using shift by simp
  then show ?thesis
    using ex_int_step ex_hidden_input16 h0 h1 by simp
qed

section \<open>Class selection picks the first maximum\<close>

lemma argmax_scan_first_max:
  assumes "best < length ys" "bv = ys ! best" "i = length ys"
    and "\<forall>j < length ys. ys ! j \<le> bv"
    and "\<forall>j < best. ys ! j < bv"
  shows "argmax_scan best bv i xs < length (ys @ xs)
         \<and> (\<forall>j < length (ys @ xs). (ys @ xs) ! j \<le> (ys @ xs) ! argmax_scan best bv i xs)
         \<and> (\<forall>j < argmax_scan best bv i xs. (ys @ xs) ! j < (ys @ xs) ! argmax_scan best bv i xs)"
  using assms
proof (induction xs arbitrary: best bv i ys)
  case Nil
  then show ?case by simp
next
  case (Cons x xs)
  show ?case
  proof (cases "bv < x")
    case True
    have a: "length ys < length (ys @ [x])" by simp
    have b: "x = (ys @ [x]) ! length ys" by simp
    have c: "Suc i = length (ys @ [x])" using Cons.prems(3) by simp
    have d: "\<forall>j < length (ys @ [x]). (ys @ [x]) ! j \<le> x"
      using Cons.prems(4) True by (auto simp: nth_append less_Suc_eq)
    have e: "\<forall>j < length ys. (ys @ [x]) ! j < x"
      using Cons.prems(4) True by (auto simp: nth_append)
    from Cons.IH [OF a b c d e] show ?thesis
      using True Cons.prems(3) by simp
  next
    case False
    have a: "best < length (ys @ [x])" using Cons.prems(1) by simp
    have b: "bv = (ys @ [x]) ! best" using Cons.prems(1,2) by (simp add: nth_append)
    have c: "Suc i = length (ys @ [x])" using Cons.prems(3) by simp
    have d: "\<forall>j < length (ys @ [x]). (ys @ [x]) ! j \<le> bv"
      using Cons.prems(4) False by (auto simp: nth_append less_Suc_eq)
    have e: "\<forall>j < best. (ys @ [x]) ! j < bv"
      using Cons.prems(1,5) by (auto simp: nth_append)
    from Cons.IH [OF a b c d e] show ?thesis
      using False by simp
  qed
qed

lemma np_argmax_first_max:
  assumes "np_argmax xs = Some c"
  shows "c < length xs \<and> (\<forall>j < length xs. xs ! j \<le> xs ! c) \<and> (\<forall>i < c. xs ! i < xs ! c)"
proof (cases xs)
  case Nil
  then show ?thesis using assms by simp
next
  case (Cons x xs')
  have c: "c = argmax_scan 0 x 1 xs'"
    using assms Cons by simp
  have "argmax_scan 0 x 1 xs' < length ([x] @ xs')
         \<and> (\<forall>j < length ([x] @ xs'). ([x] @ xs') ! j \<le> ([x] @ xs') ! argmax_scan 0 x 1 xs')
         \<and> (\<forall>j < argmax_scan 0 x 1 xs'. ([x] @ xs') ! j < ([x] @ xs') ! argmax_scan 0 x 1 xs')"
    by (rule argmax_scan_first_max) simp_all
  then show ?thesis
    by (simp add: Cons c)
qed

lemma np_argmax_Some: "xs \<noteq> [] \<Longrightarrow> \<exists>c. np_argmax xs = Some c"
  by (cases xs) simp_all

section \<open>The count vector has one entry per class\<close>

lemma int_step_lengths:
  "int_step w1 w2 q m st = (Vh, Vo, Cout) \<Longrightarrow>
     length Vh = n_hidden q \<and> length Vo = n_out q \<and> length Cout = n_out q"
  by (cases st)
     (auto simp: int_step_def Let_def split_beta lif_layer16_def reset16_def count16_def)

lemma int_run_lengths:
  "fold (int_step w1 w2 q) ms (init16 q) = (Vh, Vo, Cout) \<Longrightarrow>
     length Vh = n_hidden q \<and> length Vo = n_out q \<and> length Cout = n_out q"
proof (induction ms arbitrary: Vh Vo Cout rule: rev_induct)
  case Nil
  then show ?case by (auto simp: init16_def)
next
  case (snoc m ms)
  then show ?case
    by (simp add: int_step_lengths)
qed

lemma events_step_shaped: "shaped32 p st \<Longrightarrow> shaped32 p (events_step w p ev st)"
  by (cases st)
     (simp add: shaped32_def events_step_def Let_def hard_reset32_def spikes32_def
        hidden_membrane32_def output_membrane32_def length_leak_integrate32
        length_hidden_input32 length_output_input32)

lemma events_run_shaped: "shaped32 p st \<Longrightarrow> shaped32 p (fold (events_step w p) evs st)"
  by (induction evs arbitrary: st) (simp_all add: events_step_shaped)

lemma init32_shaped: "shaped32 p (init32 p)"
  by (simp add: shaped32_def init32_def)

text \<open>
  Claim C6. Whenever there is at least one output class, either engine returns a class
  \<open>c\<close> and a count vector with one entry per class such that no count exceeds the count
  of \<open>c\<close> and every class before \<open>c\<close> has a strictly smaller count: the class is the
  argmax of the counts, the lowest index winning a tie.
\<close>

theorem predicted_class_is_first_argmax:
  "(0 < n_out q \<longrightarrow>
      (\<exists>c Cout. snn_infer_int spike_masks w1 w2 q = Some (c, Cout)
         \<and> length Cout = n_out q \<and> c < n_out q
         \<and> (\<forall>j < n_out q. sint (Cout ! j) \<le> sint (Cout ! c))
         \<and> (\<forall>i < c. sint (Cout ! i) < sint (Cout ! c))))
   \<and> (0 < No p \<longrightarrow>
      (\<exists>c conf Cout. snn_infer_events events w p = Some (c, conf, Cout)
         \<and> length Cout = No p \<and> c < No p
         \<and> (\<forall>j < No p. sint (Cout ! j) \<le> sint (Cout ! c))
         \<and> (\<forall>i < c. sint (Cout ! i) < sint (Cout ! c))))"
proof (intro conjI impI)
  assume pos: "0 < n_out q"
  obtain Vh Vo Cout where run:
    "fold (int_step w1 w2 q) (window_of (window_len q) spike_masks) (init16 q) = (Vh, Vo, Cout)"
    by (metis prod_cases3)
  have len: "length Cout = n_out q"
    using int_run_lengths [OF run] by simp
  then have "map sint Cout \<noteq> []"
    using pos by auto
  then obtain c where c: "np_argmax (map sint Cout) = Some c"
    using np_argmax_Some by blast
  have res: "snn_infer_int spike_masks w1 w2 q = Some (c, Cout)"
    by (simp add: snn_infer_int_def run c)
  have "c < length (map sint Cout)
          \<and> (\<forall>j < length (map sint Cout). map sint Cout ! j \<le> map sint Cout ! c)
          \<and> (\<forall>i < c. map sint Cout ! i < map sint Cout ! c)"
    by (rule np_argmax_first_max [OF c])
  then have "c < n_out q \<and> (\<forall>j < n_out q. sint (Cout ! j) \<le> sint (Cout ! c))
          \<and> (\<forall>i < c. sint (Cout ! i) < sint (Cout ! c))"
    using len by auto
  then show "\<exists>c Cout. snn_infer_int spike_masks w1 w2 q = Some (c, Cout)
         \<and> length Cout = n_out q \<and> c < n_out q
         \<and> (\<forall>j < n_out q. sint (Cout ! j) \<le> sint (Cout ! c))
         \<and> (\<forall>i < c. sint (Cout ! i) < sint (Cout ! c))"
    using res len by blast
next
  assume pos: "0 < No p"
  obtain Vh Vo Cout where run:
    "fold (events_step w p) (window_of (SNNParams.window_len p) events) (init32 p) = (Vh, Vo, Cout)"
    by (metis prod_cases3)
  have len: "length Cout = No p"
    using events_run_shaped [OF init32_shaped, of p w "window_of (SNNParams.window_len p) events"]
    by (simp add: run shaped32_def)
  then have "map sint Cout \<noteq> []"
    using pos by auto
  then obtain c where c: "np_argmax (map sint Cout) = Some c"
    using np_argmax_Some by blast
  have res: "snn_infer_events events w p = Some (c, conf_q0_8 Cout c, Cout)"
    by (simp add: snn_infer_events_def run c)
  have "c < length (map sint Cout)
          \<and> (\<forall>j < length (map sint Cout). map sint Cout ! j \<le> map sint Cout ! c)
          \<and> (\<forall>i < c. map sint Cout ! i < map sint Cout ! c)"
    by (rule np_argmax_first_max [OF c])
  then have "c < No p \<and> (\<forall>j < No p. sint (Cout ! j) \<le> sint (Cout ! c))
          \<and> (\<forall>i < c. sint (Cout ! i) < sint (Cout ! c))"
    using len by auto
  then show "\<exists>c conf Cout. snn_infer_events events w p = Some (c, conf, Cout)
         \<and> length Cout = No p \<and> c < No p
         \<and> (\<forall>j < No p. sint (Cout ! j) \<le> sint (Cout ! c))
         \<and> (\<forall>i < c. sint (Cout ! i) < sint (Cout ! c))"
    using res len by blast
qed

theorem predicted_class_is_first_argmax_witness:
  "0 < n_out ex_int_params \<and> 0 < No ex_params
   \<and> (\<exists>c Cout. snn_infer_int (map spikes_to_mask ex_window) (SNNWeights.W1 ex_weights)
          (SNNWeights.W2 ex_weights) ex_int_params = Some (c, Cout)
        \<and> c < 3 \<and> sint (Cout ! 0) \<le> sint (Cout ! c))
   \<and> (\<exists>c conf Cout. snn_infer_events (spikes_to_event_lists ex_window) ex_weights ex_params
          = Some (c, conf, Cout)
        \<and> c < 3 \<and> sint (Cout ! 0) \<le> sint (Cout ! c))"
proof -
  have q: "0 < n_out ex_int_params" "n_out ex_int_params = 3"
    by (simp_all add: ex_int_params_def)
  have p: "0 < No ex_params" "No ex_params = 3"
    by (simp_all add: ex_params_def)
  note t = predicted_class_is_first_argmax
      [of ex_int_params "map spikes_to_mask ex_window" "SNNWeights.W1 ex_weights"
          "SNNWeights.W2 ex_weights" ex_params "spikes_to_event_lists ex_window" ex_weights]
  have a: "\<exists>c Cout. snn_infer_int (map spikes_to_mask ex_window) (SNNWeights.W1 ex_weights)
          (SNNWeights.W2 ex_weights) ex_int_params = Some (c, Cout)
        \<and> c < 3 \<and> sint (Cout ! 0) \<le> sint (Cout ! c)"
    using t q by fastforce
  have b: "\<exists>c conf Cout. snn_infer_events (spikes_to_event_lists ex_window) ex_weights ex_params
          = Some (c, conf, Cout)
        \<and> c < 3 \<and> sint (Cout ! 0) \<le> sint (Cout ! c)"
    using t p by fastforce
  show ?thesis
    using q(1) p(1) a b by blast
qed

section \<open>A silent window\<close>

lemma fold_if_never:
  "\<forall>x \<in> set xs. \<not> P x \<Longrightarrow> fold (\<lambda>x s. if P x then f x s else s) xs s = s"
  by (induction xs) simp_all

lemma map_upt_const: "map (\<lambda>n. c) [0..<N] = replicate N c"
  by (simp add: map_replicate_const)

lemma hidden_input16_silent: "hidden_input16 w1 q 0 = replicate (n_hidden q) 0"
  unfolding hidden_input16_def by (rule fold_if_never) simp

lemma output_input16_silent:
  "output_input16 w2 q (replicate (n_hidden q) False) = replicate (n_out q) 0"
  unfolding output_input16_def by (rule fold_if_never) simp

lemma lif_layer16_silent:
  assumes "0 < th"
  shows "lif_layer16 (replicate N 0) (replicate N 0) s th N = (replicate N 0, replicate N False)"
proof -
  have l: "leak16 (replicate N 0) s N = replicate N 0"
    unfolding leak16_def by (intro nth_equalityI) (simp_all add: asr16_eq)
  have a: "accumulate16 (replicate N 0) (replicate N 0) N = replicate N 0"
    unfolding accumulate16_def by (intro nth_equalityI) simp_all
  have f: "fire16 th (replicate N 0) N = replicate N False"
    unfolding fire16_def using assms by (intro nth_equalityI) simp_all
  have r: "reset16 th (replicate N 0) N = replicate N 0"
    unfolding reset16_def by (intro nth_equalityI) simp_all
  show ?thesis
    by (simp add: lif_layer16_def Let_def l a f r)
qed

lemma count16_silent: "count16 (replicate N False) (replicate N 0) N = replicate N 0"
  unfolding count16_def by (intro nth_equalityI) simp_all

lemma int_step_silent:
  assumes "0 < th_h q" "0 < th_o q"
  shows "int_step w1 w2 q 0 (init16 q) = init16 q"
  using assms
  by (simp add: int_step_def init16_def Let_def hidden_input16_silent lif_layer16_silent
        output_input16_silent count16_silent)

lemma int_run_silent:
  assumes "0 < th_h q" "0 < th_o q" "\<forall>m \<in> set ms. m = 0"
  shows "fold (int_step w1 w2 q) ms (init16 q) = init16 q"
  using assms(3)
proof (induction ms)
  case Nil
  then show ?case by simp
next
  case (Cons m ms)
  then show ?case
    using int_step_silent [OF assms(1,2)] by simp
qed

lemma leak_integrate32_silent: "leak_integrate32 (replicate N 0) s (replicate N 0) = replicate N 0"
  unfolding leak_integrate32_def by (intro nth_equalityI) simp_all

lemma spikes32_silent: "0 < th \<Longrightarrow> spikes32 th (replicate N 0) = replicate N 0"
  by (simp add: spikes32_def)

lemma hard_reset32_silent: "hard_reset32 (replicate N 0) (replicate N 0) = replicate N 0"
  unfolding hard_reset32_def by (intro nth_equalityI) simp_all

lemma output_input32_silent: "output_input32 w nh no (replicate nh 0) = replicate no 0"
proof -
  have z: "map (\<lambda>hn. replicate nh (0 :: i32) ! hn * scast (SNNWeights.W2 w hn on)) [0..<nh]
             = map (\<lambda>hn. 0) [0..<nh]" for on
    by (intro map_cong) simp_all
  have "sum_list (map2 (\<lambda>s hn. s * scast (SNNWeights.W2 w hn on)) (replicate nh (0 :: i32)) [0..<nh]) = 0"
    for on
    by (simp add: map2_upt z)
  then show ?thesis
    by (simp add: output_input32_def map_upt_const)
qed

lemma counts_silent: "map2 (+) (replicate N (0 :: i32)) (replicate N 0) = replicate N 0"
  by (intro nth_equalityI) simp_all

lemma events_step_silent:
  assumes "0 < SNNParams.th_h p" "0 < SNNParams.th_o p"
  shows "events_step w p [] (init32 p) = init32 p"
  using assms
  by (simp add: events_step_def init32_def Let_def hidden_membrane32_def output_membrane32_def
        hidden_input32_def leak_integrate32_silent spikes32_silent hard_reset32_silent
        output_input32_silent counts_silent)

lemma events_run_silent:
  assumes "0 < SNNParams.th_h p" "0 < SNNParams.th_o p" "\<forall>ev \<in> set evs. ev = []"
  shows "fold (events_step w p) evs (init32 p) = init32 p"
  using assms(3)
proof (induction evs)
  case Nil
  then show ?case by simp
next
  case (Cons ev evs)
  then show ?case
    using events_step_silent [OF assms(1,2)] by simp
qed

text \<open>
  Claim C7. With positive thresholds and three output classes, a window whose mask is
  zero at every timestep (for \<open>snn_infer_events\<close>: whose event list is empty at every
  timestep) yields counts \<open>[0, 0, 0]\<close> and class 0, for every length of the window and
  all weights.
\<close>

theorem silent_window_counts_nothing:
  assumes "0 < th_h q" "0 < th_o q" "n_out q = 3" "\<forall>m \<in> set spike_masks. m = 0"
    and "0 < SNNParams.th_h p" "0 < SNNParams.th_o p" "No p = 3" "\<forall>ev \<in> set events. ev = []"
  shows "snn_infer_int spike_masks w1 w2 q = Some (0, [0, 0, 0])
         \<and> snn_infer_events events w p = Some (0, 0, [0, 0, 0])"
proof -
  have m: "\<forall>m \<in> set (window_of (window_len q) spike_masks). m = 0"
    using assms(4) set_window_of [of "window_len q" spike_masks] by blast
  have e: "\<forall>ev \<in> set (window_of (SNNParams.window_len p) events). ev = []"
    using assms(8) set_window_of [of "SNNParams.window_len p" events] by blast
  have "snn_infer_int spike_masks w1 w2 q = Some (0, [0, 0, 0])"
    unfolding snn_infer_int_def int_run_silent [OF assms(1,2) m]
    by (simp add: init16_def assms(3) replicate3)
  moreover have "snn_infer_events events w p = Some (0, 0, [0, 0, 0])"
    unfolding snn_infer_events_def events_run_silent [OF assms(5,6) e]
    by (simp add: init32_def assms(7) replicate3 conf_q0_8_def)
  ultimately show ?thesis by simp
qed

theorem silent_window_counts_nothing_witness:
  "0 < th_h ex_int_params \<and> 0 < th_o ex_int_params \<and> n_out ex_int_params = 3
   \<and> 0 < SNNParams.th_h ex_params \<and> 0 < SNNParams.th_o ex_params \<and> No ex_params = 3
   \<and> snn_infer_int [0, 0, 0, 0] (SNNWeights.W1 ex_weights) (SNNWeights.W2 ex_weights) ex_int_params
       = Some (0, [0, 0, 0])
   \<and> snn_infer_events [[], [], [], []] ex_weights ex_params = Some (0, 0, [0, 0, 0])"
  using silent_window_counts_nothing
          [of ex_int_params "[0, 0, 0, 0]" ex_params "[[], [], [], []]"
              "SNNWeights.W1 ex_weights" "SNNWeights.W2 ex_weights" ex_weights]
  by (simp add: ex_int_params_def ex_params_def)

section \<open>Counts and confidence\<close>


lemma spike_bit: "unat (if b then 1 else 0 :: i32) \<le> 1"
  by simp











section \<open>The contract of the quantizer\<close>

lemma np_clip_range: "lo \<le> hi \<Longrightarrow> lo \<le> np_clip x lo hi \<and> np_clip x lo hi \<le> hi"
  by (simp add: np_clip_def)

lemma sint_int8_of_int:
  assumes "- 127 \<le> k" "k \<le> 127"
  shows "sint (word_of_int k :: i8) = k"
proof -
  have "sint (word_of_int k :: i8) = signed_take_bit 7 k"
    by (simp add: sint_sbintrunc')
  also have "\<dots> = k"
    using assms by (intro signed_take_bit_int_eq_self) simp_all
  finally show ?thesis .
qed

lemma py_round_0: "py_round 0 = 0"
  by (simp add: py_round_def)

lemma max_abs_fold: "fold max (map abs xs) \<bar>x :: real\<bar> = Max (abs ` set (x # xs))"
proof -
  have "Max (set (\<bar>x\<bar> # map abs xs)) = fold max (map abs xs) \<bar>x\<bar>"
    by (rule Max.set_eq_fold)
  then show ?thesis by simp
qed

text \<open>
  Claim C9, as amended. Whenever the quantizer returns \<open>(q, scale)\<close>: the scale is the
  largest magnitude divided by 127 when that magnitude exceeds \<open>1e-12\<close> and 1 otherwise,
  in particular 1 for the all-zero matrix; \<open>q\<close> has the shape of the matrix; every entry
  of \<open>q\<close> lies between \<open>-127\<close> and \<open>127\<close>; and every zero entry of the matrix is a zero
  entry of \<open>q\<close>.
\<close>

theorem quantize_int8_contract:
  assumes "quantize_int8 w = Some (q, scale)"
  shows "scale = (if 1 / 10 ^ 12 < Max (abs ` set (concat w))
                  then Max (abs ` set (concat w)) / 127 else 1)
         \<and> ((\<forall>v \<in> set (concat w). v = 0) \<longrightarrow> scale = 1)
         \<and> length q = length w
         \<and> (\<forall>i < length w. length (q ! i) = length (w ! i)
              \<and> (\<forall>j < length (w ! i).
                    - 127 \<le> sint (q ! i ! j) \<and> sint (q ! i ! j) \<le> 127
                    \<and> (w ! i ! j = 0 \<longrightarrow> q ! i ! j = 0)))"
proof -
  obtain x xs where c: "concat w = x # xs"
    using assms by (auto simp: quantize_int8_def split: list.splits)
  let ?mx = "Max (abs ` set (concat w))"
  define m where "m = fold max (map abs xs) \<bar>x\<bar>"
  define sc where "sc = (if 1 / 10 ^ 12 < m then m / 127 else 1)"
  have "quantize_int8 w
          = Some (map (map (\<lambda>v. word_of_int (np_clip (py_round (v / sc)) (- 127) 127))) w, sc)"
    unfolding quantize_int8_def c m_def sc_def by (simp add: Let_def)
  with assms have q: "q = map (map (\<lambda>v. word_of_int (np_clip (py_round (v / sc)) (- 127) 127))) w"
    and s: "scale = sc"
    by auto
  have m: "m = ?mx"
    unfolding m_def by (simp only: max_abs_fold c)
  have scale: "scale = (if 1 / 10 ^ 12 < ?mx then ?mx / 127 else 1)"
    unfolding s sc_def m ..
  have zero: "scale = 1" if "\<forall>v \<in> set (concat w). v = 0"
  proof -
    have "abs ` set (concat w) = {0}"
      using that c by (auto simp: image_iff)
    then show ?thesis by (simp add: scale)
  qed
  have entry: "- 127 \<le> sint (q ! i ! j) \<and> sint (q ! i ! j) \<le> 127 \<and> (w ! i ! j = 0 \<longrightarrow> q ! i ! j = 0)"
    if "i < length w" "j < length (w ! i)" for i j
  proof -
    let ?k = "np_clip (py_round (w ! i ! j / sc)) (- 127) 127"
    have e: "q ! i ! j = word_of_int ?k"
      using that by (simp add: q)
    have r: "- 127 \<le> ?k \<and> ?k \<le> 127"
      by (rule np_clip_range) simp
    have "sint (q ! i ! j) = ?k"
      using r by (simp only: e sint_int8_of_int)
    moreover have "q ! i ! j = 0" if "w ! i ! j = 0"
      using that by (simp add: e py_round_0 np_clip_def)
    ultimately show ?thesis using r by simp
  qed
  have len: "length q = length w" "\<forall>i < length w. length (q ! i) = length (w ! i)"
    by (simp_all add: q)
  show ?thesis
    using scale zero len entry by blast
qed

lemma py_round_vals:
  "py_round (127 / 2) = 64" "py_round (- 127) = - 127" "py_round (127 / 4) = 32"
  by (simp_all add: py_round_def Let_def)

lemma quantize_sample_concat: "concat [[1 / 2, - 1], [0, 1 / 4 :: real]] = [1 / 2, - 1, 0, 1 / 4]"
  by simp

lemma quantize_sample_max: "fold max (map abs [- 1, 0, 1 / 4 :: real]) \<bar>1 / 2\<bar> = 1"
  by simp

lemma quantize_sample:
  "quantize_int8 [[1 / 2, - 1], [0, 1 / 4]] = Some ([[64, - 127], [0, 32]], 1 / 127)"
  unfolding quantize_int8_def quantize_sample_concat list.case Let_def quantize_sample_max
  by (simp add: py_round_vals py_round_0 np_clip_def)

theorem quantize_int8_contract_witness:
  "quantize_int8 [[1 / 2, - 1], [0, 1 / 4]] = Some ([[64, - 127], [0, 32]], 1 / 127)
   \<and> length [[64, - 127], [0, 32 :: i8]] = length [[1 / 2, - 1], [0, 1 / 4 :: real]]"
proof -
  note t = quantize_int8_contract [OF quantize_sample]
  from t [THEN conjunct2, THEN conjunct2, THEN conjunct1] quantize_sample show ?thesis
    by (rule conjI [rotated])
qed

lemma py_round_small:
  assumes "0 \<le> x" "x < 1 / 2"
  shows "py_round x = 0"
proof -
  have "\<lfloor>x\<rfloor> = 0"
    using assms by (simp add: floor_eq_iff)
  then show ?thesis
    using assms by (simp add: py_round_def Let_def)
qed

lemma tiny_below_guard: "\<not> (1 / 10 ^ 12 < (1 / 2 ^ 44 :: real))"
  by (simp add: field_simps)

lemma tiny_rounds_to_0: "py_round (1 / 2 ^ 44) = 0"
  by (rule py_round_small) (simp_all add: field_simps)

text \<open>
  A matrix whose only entry is \<open>2 ^ -44\<close>, a float32 value below the guard: it is not
  all-zero, yet its scale is 1 and not the largest magnitude divided by 127.
\<close>

theorem quantize_int8_tiny_matrix:
  "quantize_int8 [[1 / 2 ^ 44]] = Some ([[0]], 1)
   \<and> (1 / 2 ^ 44 :: real) \<noteq> 0
   \<and> (1 :: real) \<noteq> Max (abs ` set (concat [[1 / 2 ^ 44]])) / 127"
proof -
  have c: "concat [[1 / 2 ^ 44 :: real]] = [1 / 2 ^ 44]"
    by simp
  have m: "fold max (map abs []) \<bar>1 / 2 ^ 44 :: real\<bar> = 1 / 2 ^ 44"
    by simp
  have q: "quantize_int8 [[1 / 2 ^ 44]] = Some ([[0]], 1)"
    unfolding quantize_int8_def c list.case Let_def m
    by (simp only: tiny_below_guard if_False div_by_1 tiny_rounds_to_0 list.map np_clip_def)
       simp
  have n: "(1 / 2 ^ 44 :: real) \<noteq> 0"
    by simp
  have "Max (abs ` set (concat [[1 / 2 ^ 44 :: real]])) = 1 / 2 ^ 44"
    by (simp only: c) simp
  then have s: "(1 :: real) \<noteq> Max (abs ` set (concat [[1 / 2 ^ 44]])) / 127"
    by (simp only:) (simp add: field_simps)
  show ?thesis
    using q n s by blast
qed

end
